theory Spec2Isabelle
  imports Main "HOL-Library.Word" "HOL-Library.Multiset" "HOL-Library.Sublist"
begin

section \<open>The free store and the queue object\<close>

text \<open>
  An \<open>Entry*\<close> is either \<open>nullptr\<close> (\<open>None\<close>) or the address of an entry
  (\<open>Some a\<close>). The free store maps every live address to the \<open>Entry\<close> object stored
  there; \<open>new\<close> makes an address live, \<open>delete\<close> removes it again.
\<close>

type_synonym addr = nat

record 'a Entry =
  mValue :: 'a
  mNext :: "addr option"

text \<open>
  The two atomic heads of \<open>LocklessQueue\<close>, together with the part of the free store
  that holds \<open>Entry\<close> objects (\<open>entries\<close>).
\<close>

record 'a LocklessQueue =
  entries :: "addr \<Rightarrow> 'a Entry option"
  mPush :: "addr option"
  mPop :: "addr option"

text \<open>Dereferencing a pointer that is not live is undefined behaviour; the model records it.\<close>

datatype fault = InvalidPointer

text \<open>
  A freshly constructed queue: both member initialisers are \<open>nullptr\<close>; \<open>h\<close> is the
  free store at the time of construction.
\<close>

definition fresh_queue :: "(addr \<Rightarrow> 'a Entry option) \<Rightarrow> 'a LocklessQueue" where
  "fresh_queue h = \<lparr>entries = h, mPush = None, mPop = None\<rparr>"

section \<open>The operations\<close>

text \<open>\<open>isEmpty\<close>: two atomic loads; the (unchanged) state is returned with the answer.\<close>

definition isEmpty :: "'a LocklessQueue \<Rightarrow> bool \<times> 'a LocklessQueue" where
  "isEmpty q = ((mPush q = None) \<and> (mPop q = None), q)"

text \<open>
  \<open>mPush.compare_exchange_weak(expected, desired)\<close>. The weak form may fail although
  the comparison succeeds; \<open>spurious\<close> says whether this attempt does. On failure the
  current value of \<open>mPush\<close> is written back to \<open>expected\<close>. The result is the success
  flag, the new value of \<open>expected\<close> and the new state.
\<close>

definition compare_exchange_weak ::
  "bool \<Rightarrow> addr option \<Rightarrow> addr option \<Rightarrow> 'a LocklessQueue \<Rightarrow> bool \<times> addr option \<times> 'a LocklessQueue" where
  "compare_exchange_weak spurious expected desired q =
     (if mPush q = expected \<and> \<not> spurious then (True, expected, q\<lparr>mPush := desired\<rparr>)
      else (False, mPush q, q))"

text \<open>
  The \<open>do ... while\<close> loop of \<open>push\<close>. \<open>entry\<close> is the address of the entry created by
  this call and \<open>v\<close> the value it holds; \<open>n\<close> is the number of attempts that still fail
  spuriously. Each round stores \<open>previousHead\<close> into \<open>entry->mNext\<close> and then tries
  the compare-exchange.
\<close>

function push_loop :: "nat \<Rightarrow> addr \<Rightarrow> 'a \<Rightarrow> addr option \<Rightarrow> 'a LocklessQueue \<Rightarrow> 'a LocklessQueue" where
  "push_loop n entry v previousHead q =
     (let q1 = q\<lparr>entries := (entries q)(entry \<mapsto> \<lparr>mValue = v, mNext = previousHead\<rparr>)\<rparr>
      in case compare_exchange_weak (0 < n) previousHead (Some entry) q1 of
           (True, _, q2) \<Rightarrow> q2
         | (False, previousHead', q2) \<Rightarrow> push_loop (n - 1) entry v previousHead' q2)"
  by pat_completeness auto
termination
  by (relation "measure (\<lambda>(n, entry, v, previousHead, q).
         2 * n + (if mPush q = previousHead then 0 else 1))")
     (auto simp: compare_exchange_weak_def split: if_splits)

declare push_loop.simps [simp del]

text \<open>
  \<open>push(value)\<close>. \<open>a\<close> is the address \<open>new Entry\<close> returns (an address that is not
  live), \<open>n\<close> the number of spurious compare-exchange failures this call meets. The
  constructor sets \<open>mValue\<close>; \<open>mNext\<close> is written by the loop before the entry is
  published.
\<close>

definition push :: "addr \<Rightarrow> nat \<Rightarrow> 'a \<Rightarrow> 'a LocklessQueue \<Rightarrow> 'a LocklessQueue" where
  "push a n v q =
     (let q0 = q\<lparr>entries := (entries q)(a \<mapsto> \<lparr>mValue = v, mNext = None\<rparr>)\<rparr>;
          previousHead = mPush q0
      in push_loop n a v previousHead q0)"

text \<open>
  The list-reversal loop of \<open>pop\<close>, on the free store \<open>h\<close> with the locals \<open>popped\<close>
  and \<open>grabbedList\<close>. The last argument counts the iterations executed so far. The loop
  need not terminate on a cyclic list, so the result is an option; it is a fault when
  \<open>grabbedList\<close> is not live.
\<close>

partial_function (option) reverse_loop ::
  "(addr \<Rightarrow> 'a Entry option) \<Rightarrow> addr option \<Rightarrow> addr \<Rightarrow> nat \<Rightarrow>
     (fault + (addr \<Rightarrow> 'a Entry option) \<times> addr option \<times> addr \<times> nat) option" where
  "reverse_loop h popped grabbedList k =
     (case h grabbedList of
        None \<Rightarrow> Some (Inl InvalidPointer)
      | Some e \<Rightarrow>
          (case mNext e of
             None \<Rightarrow> Some (Inr (h, popped, grabbedList, k))
           | Some next \<Rightarrow>
               reverse_loop (h(grabbedList \<mapsto> e\<lparr>mNext := popped\<rparr>)) (Some grabbedList) next (Suc k)))"

declare reverse_loop.simps [code]

text \<open>
  \<open>pop()\<close>. \<open>None\<close>: the call does not return. \<open>Some (Inl f)\<close>: it dereferences a
  pointer that is not live. \<open>Some (Inr (r, q'))\<close>: it returns the \<open>std::optional\<close>
  \<open>r\<close> and leaves the state \<open>q'\<close>.
\<close>

definition pop :: "'a LocklessQueue \<Rightarrow> (fault + 'a option \<times> 'a LocklessQueue) option" where
  "pop q =
     (case mPop q of
        Some popped \<Rightarrow>
          (case entries q popped of
             None \<Rightarrow> Some (Inl InvalidPointer)
           | Some e \<Rightarrow>
               Some (Inr (Some (mValue e),
                          q\<lparr>mPop := mNext e, entries := (entries q)(popped := None)\<rparr>)))
      | None \<Rightarrow>
          (let q1 = q\<lparr>mPush := None\<rparr>
           in case mPush q of
                None \<Rightarrow> Some (Inr (None, q1))
              | Some grabbedList \<Rightarrow>
                  (case reverse_loop (entries q1) None grabbedList 0 of
                     None \<Rightarrow> None
                   | Some (Inl f) \<Rightarrow> Some (Inl f)
                   | Some (Inr (h, popped, grabbedList', k)) \<Rightarrow>
                       (case h grabbedList' of
                          None \<Rightarrow> Some (Inl InvalidPointer)
                        | Some e \<Rightarrow>
                            Some (Inr (Some (mValue e),
                                       q1\<lparr>mPop := popped, entries := h(grabbedList' := None)\<rparr>))))))"

section \<open>Linked lists in the free store\<close>

text \<open>
  \<open>chain h p xs\<close>: following \<open>mNext\<close> from the pointer \<open>p\<close> visits exactly the live
  entries listed in \<open>xs\<close> (each with its address and its value), in this order, and then
  reaches \<open>nullptr\<close>. A pointer that heads a chain heads a finite, acyclic list.
\<close>

primrec chain :: "(addr \<Rightarrow> 'a Entry option) \<Rightarrow> addr option \<Rightarrow> (addr \<times> 'a) list \<Rightarrow> bool" where
  "chain h p [] = (p = None)"
| "chain h p (x # xs) =
     (p = Some (fst x) \<and>
      (case h (fst x) of
         None \<Rightarrow> False
       | Some e \<Rightarrow> mValue e = snd x \<and> chain h (mNext e) xs))"

text \<open>\<open>reaches h p a\<close>: the entry at \<open>a\<close> is reachable from the pointer \<open>p\<close>.\<close>

inductive reaches :: "(addr \<Rightarrow> 'a Entry option) \<Rightarrow> addr option \<Rightarrow> addr \<Rightarrow> bool"
  for h :: "addr \<Rightarrow> 'a Entry option" where
  reaches_head: "reaches h (Some a) a"
| reaches_next: "h a = Some e \<Longrightarrow> reaches h (mNext e) b \<Longrightarrow> reaches h (Some a) b"

code_pred reaches .

text \<open>
  The representation invariant: the push head heads the chain \<open>ps\<close> (newest first), the
  pop head heads the chain \<open>qs\<close> (oldest first), and the two share no entry.
\<close>

definition queue_inv :: "'a LocklessQueue \<Rightarrow> (addr \<times> 'a) list \<Rightarrow> (addr \<times> 'a) list \<Rightarrow> bool" where
  "queue_inv q ps qs \<longleftrightarrow>
     chain (entries q) (mPush q) ps \<and> chain (entries q) (mPop q) qs \<and>
     set (map fst ps) \<inter> set (map fst qs) = {}"

text \<open>The abstraction: the pop list followed by the reversed push list.\<close>

definition contents :: "(addr \<times> 'a) list \<Rightarrow> (addr \<times> 'a) list \<Rightarrow> 'a list" where
  "contents ps qs = map snd qs @ rev (map snd ps)"

section \<open>Single-threaded call sequences\<close>

text \<open>
  A call of one of the three operations. A \<open>Push\<close> carries the pushed value, the address
  its \<open>new Entry\<close> returns and the number of spurious compare-exchange failures it meets.
\<close>

datatype 'a call = Push 'a addr nat | Pop | IsEmpty

datatype 'a reply = Pushed | Popped "'a option" | Emptiness bool

fun invoke :: "'a call \<Rightarrow> 'a LocklessQueue \<Rightarrow> (fault + 'a reply \<times> 'a LocklessQueue) option" where
  "invoke (Push v a n) q = Some (Inr (Pushed, push a n v q))"
| "invoke Pop q =
     (case pop q of
        None \<Rightarrow> None
      | Some (Inl f) \<Rightarrow> Some (Inl f)
      | Some (Inr (r, q')) \<Rightarrow> Some (Inr (Popped r, q')))"
| "invoke IsEmpty q = (case isEmpty q of (b, q') \<Rightarrow> Some (Inr (Emptiness b, q')))"

fun run :: "'a call list \<Rightarrow> 'a LocklessQueue \<Rightarrow> (fault + 'a reply list \<times> 'a LocklessQueue) option" where
  "run [] q = Some (Inr ([], q))"
| "run (c # cs) q =
     (case invoke c q of
        None \<Rightarrow> None
      | Some (Inl f) \<Rightarrow> Some (Inl f)
      | Some (Inr (r, q')) \<Rightarrow>
          (case run cs q' of
             None \<Rightarrow> None
           | Some (Inl f) \<Rightarrow> Some (Inl f)
           | Some (Inr (rs, q'')) \<Rightarrow> Some (Inr (r # rs, q''))))"

text \<open>
  The allocator's guarantee along a call sequence: the address each \<open>new Entry\<close> returns
  is not live at the time of the call. (An address freed by an earlier \<open>pop\<close> may be
  returned again.)
\<close>

fun allocator_ok :: "'a call list \<Rightarrow> 'a LocklessQueue \<Rightarrow> bool" where
  "allocator_ok [] q = True"
| "allocator_ok (c # cs) q =
     ((case c of Push v a n \<Rightarrow> entries q a = None | _ \<Rightarrow> True) \<and>
      (case invoke c q of Some (Inr (r, q')) \<Rightarrow> allocator_ok cs q' | _ \<Rightarrow> True))"

text \<open>
  The naive FIFO queue of the specification: a list with the oldest value first; a push
  appends, a pop takes the head.
\<close>

fun fifo_invoke :: "'a call \<Rightarrow> 'a list \<Rightarrow> 'a reply \<times> 'a list" where
  "fifo_invoke (Push v a n) xs = (Pushed, xs @ [v])"
| "fifo_invoke Pop [] = (Popped None, [])"
| "fifo_invoke Pop (x # xs) = (Popped (Some x), xs)"
| "fifo_invoke IsEmpty xs = (Emptiness (xs = []), xs)"

fun fifo_run :: "'a call list \<Rightarrow> 'a list \<Rightarrow> 'a reply list \<times> 'a list" where
  "fifo_run [] xs = ([], xs)"
| "fifo_run (c # cs) xs =
     (case fifo_invoke c xs of (r, xs') \<Rightarrow>
        (case fifo_run cs xs' of (rs, xs'') \<Rightarrow> (r # rs, xs'')))"

section \<open>Threads: one event per atomic access\<close>

text \<open>
  Every atomic operation of \<open>LocklessQueue\<close> uses the default, sequentially consistent
  memory order, so a concurrent execution is an interleaving of the threads' accesses.
  A thread is cut at its atomic accesses (and at \<open>new\<close> and \<open>delete\<close>); the program
  counter of a thread names the access it performs next and holds its locals.

  A producer runs \<open>push\<close> on each value of its list \<open>todo\<close> in turn:
  \<^item> \<open>PIdle\<close>: before \<open>new Entry(value)\<close>;
  \<^item> \<open>PLoad entry\<close>: before \<open>previousHead = mPush.load()\<close>;
  \<^item> \<open>PLink entry previousHead\<close>: before \<open>entry->mNext = previousHead\<close>;
  \<^item> \<open>PCas entry previousHead\<close>: before \<open>mPush.compare_exchange_weak(previousHead, entry)\<close>.
\<close>

datatype producer_pc =
    PIdle
  | PLoad addr
  | PLink addr "addr option"
  | PCas addr "addr option"

record 'a producer =
  todo :: "'a list"
  ppc :: producer_pc

text \<open>
  The consumer calls \<open>pop\<close> again and again and appends every value it gets to \<open>out\<close>:
  \<^item> \<open>CIdle\<close>: before \<open>popped = mPop.load()\<close>;
  \<^item> \<open>CLoaded popped\<close>: \<open>popped\<close> is not null; before the load of \<open>popped->mNext\<close>;
  \<^item> \<open>CUnlink popped next\<close>: before \<open>mPop.store(next)\<close>, followed by the read of
    \<open>popped->mValue\<close>;
  \<^item> \<open>CDelete entry value\<close>: before \<open>delete entry; return value\<close> (of either branch);
  \<^item> \<open>CExchange\<close>: \<open>popped\<close> is null; before \<open>grabbedList = mPush.exchange(nullptr)\<close>;
  \<^item> \<open>CTest popped grabbedList\<close>: before the load of \<open>grabbedList->mNext\<close> in the loop
    condition;
  \<^item> \<open>CNext popped grabbedList\<close>: in the loop body, before \<open>next = grabbedList->mNext\<close>;
  \<^item> \<open>CLink popped grabbedList next\<close>: before \<open>grabbedList->mNext = popped\<close>, followed by
    \<open>popped = grabbedList; grabbedList = next\<close>;
  \<^item> \<open>CStore popped grabbedList\<close>: after the loop, before \<open>mPop.store(popped)\<close>, followed
    by the read of \<open>grabbedList->mValue\<close>.
\<close>

datatype 'a consumer_pc =
    CIdle
  | CLoaded addr
  | CUnlink addr "addr option"
  | CDelete addr 'a
  | CExchange
  | CTest "addr option" "addr option"
  | CNext "addr option" addr
  | CLink "addr option" addr "addr option"
  | CStore "addr option" addr

record 'a system =
  queue :: "'a LocklessQueue"
  producers :: "'a producer list"
  consumer :: "'a consumer_pc"
  out :: "'a list"

text \<open>
  The next access of a producer. \<open>a\<close> is the address \<open>new\<close> returns if the access is the
  allocation (it must not be live), \<open>spurious\<close> says whether the compare-exchange
  fails spuriously if the access is the compare-exchange. \<open>None\<close>: the thread has no such
  access (it is finished, or the allocator cannot return \<open>a\<close>).
\<close>

definition producer_step ::
  "addr \<Rightarrow> bool \<Rightarrow> 'a producer \<Rightarrow> 'a LocklessQueue \<Rightarrow> (fault + 'a producer \<times> 'a LocklessQueue) option" where
  "producer_step a spurious p q =
     (case ppc p of
        PIdle \<Rightarrow>
          (case todo p of
             [] \<Rightarrow> None
           | v # vs \<Rightarrow>
               if entries q a = None
               then Some (Inr (\<lparr>todo = vs, ppc = PLoad a\<rparr>,
                               q\<lparr>entries := (entries q)(a \<mapsto> \<lparr>mValue = v, mNext = None\<rparr>)\<rparr>))
               else None)
      | PLoad entry \<Rightarrow> Some (Inr (p\<lparr>ppc := PLink entry (mPush q)\<rparr>, q))
      | PLink entry previousHead \<Rightarrow>
          (case entries q entry of
             None \<Rightarrow> Some (Inl InvalidPointer)
           | Some e \<Rightarrow>
               Some (Inr (p\<lparr>ppc := PCas entry previousHead\<rparr>,
                          q\<lparr>entries := (entries q)(entry \<mapsto> e\<lparr>mNext := previousHead\<rparr>)\<rparr>)))
      | PCas entry previousHead \<Rightarrow>
          (case compare_exchange_weak spurious previousHead (Some entry) q of
             (True, _, q') \<Rightarrow> Some (Inr (p\<lparr>ppc := PIdle\<rparr>, q'))
           | (False, previousHead', q') \<Rightarrow> Some (Inr (p\<lparr>ppc := PLink entry previousHead'\<rparr>, q'))))"

text \<open>
  The next access of the consumer, on the queue and the list of values returned so far.
  Dereferencing or deleting a pointer that is null or not live is a fault.
\<close>

definition consumer_step ::
  "'a consumer_pc \<Rightarrow> 'a LocklessQueue \<Rightarrow> 'a list \<Rightarrow> fault + 'a consumer_pc \<times> 'a LocklessQueue \<times> 'a list" where
  "consumer_step pc q vs =
     (case pc of
        CIdle \<Rightarrow>
          (case mPop q of
             Some popped \<Rightarrow> Inr (CLoaded popped, q, vs)
           | None \<Rightarrow> Inr (CExchange, q, vs))
      | CLoaded popped \<Rightarrow>
          (case entries q popped of
             None \<Rightarrow> Inl InvalidPointer
           | Some e \<Rightarrow> Inr (CUnlink popped (mNext e), q, vs))
      | CUnlink popped next \<Rightarrow>
          (case entries q popped of
             None \<Rightarrow> Inl InvalidPointer
           | Some e \<Rightarrow> Inr (CDelete popped (mValue e), q\<lparr>mPop := next\<rparr>, vs))
      | CDelete entry v \<Rightarrow>
          (case entries q entry of
             None \<Rightarrow> Inl InvalidPointer
           | Some e \<Rightarrow> Inr (CIdle, q\<lparr>entries := (entries q)(entry := None)\<rparr>, vs @ [v]))
      | CExchange \<Rightarrow>
          (case mPush q of
             None \<Rightarrow> Inr (CIdle, q\<lparr>mPush := None\<rparr>, vs)
           | Some grabbedList \<Rightarrow> Inr (CTest None (Some grabbedList), q\<lparr>mPush := None\<rparr>, vs))
      | CTest popped grabbedList \<Rightarrow>
          (case grabbedList of
             None \<Rightarrow> Inl InvalidPointer
           | Some g \<Rightarrow>
               (case entries q g of
                  None \<Rightarrow> Inl InvalidPointer
                | Some e \<Rightarrow>
                    (case mNext e of
                       None \<Rightarrow> Inr (CStore popped g, q, vs)
                     | Some _ \<Rightarrow> Inr (CNext popped g, q, vs))))
      | CNext popped g \<Rightarrow>
          (case entries q g of
             None \<Rightarrow> Inl InvalidPointer
           | Some e \<Rightarrow> Inr (CLink popped g (mNext e), q, vs))
      | CLink popped g next \<Rightarrow>
          (case entries q g of
             None \<Rightarrow> Inl InvalidPointer
           | Some e \<Rightarrow>
               Inr (CTest (Some g) next, q\<lparr>entries := (entries q)(g \<mapsto> e\<lparr>mNext := popped\<rparr>)\<rparr>, vs))
      | CStore popped g \<Rightarrow>
          (case entries q g of
             None \<Rightarrow> Inl InvalidPointer
           | Some e \<Rightarrow> Inr (CDelete g (mValue e), q\<lparr>mPop := popped\<rparr>, vs)))"

text \<open>
  An event is the next access of one thread: of producer \<open>i\<close> (with the allocator's
  and the compare-exchange's choice), or of the consumer. \<open>step\<close> is \<open>None\<close> when the
  thread has no such access; it is a fault when the access is undefined behaviour.
\<close>

datatype event = Produce nat addr bool | Consume

fun step :: "event \<Rightarrow> 'a system \<Rightarrow> (fault + 'a system) option" where
  "step (Produce i a spurious) s =
     (if i < length (producers s)
      then (case producer_step a spurious (producers s ! i) (queue s) of
              None \<Rightarrow> None
            | Some (Inl f) \<Rightarrow> Some (Inl f)
            | Some (Inr (p', q')) \<Rightarrow> Some (Inr (s\<lparr>queue := q', producers := (producers s)[i := p']\<rparr>)))
      else None)"
| "step Consume s =
     (case consumer_step (consumer s) (queue s) (out s) of
        Inl f \<Rightarrow> Some (Inl f)
      | Inr (pc', q', vs') \<Rightarrow> Some (Inr (s\<lparr>queue := q', consumer := pc', out := vs'\<rparr>)))"

text \<open>A schedule is a list of events; \<open>exec\<close> runs it and stops at the first fault.\<close>

fun exec :: "event list \<Rightarrow> 'a system \<Rightarrow> (fault + 'a system) option" where
  "exec [] s = Some (Inr s)"
| "exec (ev # evs) s =
     (case step ev s of
        None \<Rightarrow> None
      | Some (Inl f) \<Rightarrow> Some (Inl f)
      | Some (Inr s') \<Rightarrow> exec evs s')"

text \<open>
  The start: a fresh queue, one producer for each list of \<open>vals\<close>, about to push the
  values of its list in order, and the consumer about to call \<open>pop\<close>.
\<close>

definition start :: "(addr \<Rightarrow> 'a Entry option) \<Rightarrow> 'a list list \<Rightarrow> 'a system" where
  "start h vals =
     \<lparr>queue = fresh_queue h, producers = map (\<lambda>vs. \<lparr>todo = vs, ppc = PIdle\<rparr>) vals,
      consumer = CIdle, out = []\<rparr>"

subsection \<open>The states the threads reach\<close>

text \<open>
  The rest of this section describes the states the threads can reach; it is used in the
  proofs only. \<open>in_flight p\<close>: the entry a producer has allocated and not yet published.
\<close>

definition in_flight :: "'a producer \<Rightarrow> addr set" where
  "in_flight p = (case ppc p of PIdle \<Rightarrow> {} | PLoad a \<Rightarrow> {a} | PLink a _ \<Rightarrow> {a} | PCas a _ \<Rightarrow> {a})"

text \<open>
  \<open>producer_holds h p hv\<close>: \<open>hv\<close> lists the value the producer has moved into its
  unpublished entry (none between two calls); before the compare-exchange the entry's
  \<open>mNext\<close> is the \<open>previousHead\<close> the producer holds.
\<close>

definition producer_holds :: "(addr \<Rightarrow> 'a Entry option) \<Rightarrow> 'a producer \<Rightarrow> 'a list \<Rightarrow> bool" where
  "producer_holds h p hv =
     (case ppc p of
        PIdle \<Rightarrow> hv = []
      | PLoad a \<Rightarrow> (case h a of None \<Rightarrow> False | Some e \<Rightarrow> hv = [mValue e])
      | PLink a _ \<Rightarrow> (case h a of None \<Rightarrow> False | Some e \<Rightarrow> hv = [mValue e])
      | PCas a previousHead \<Rightarrow>
          (case h a of None \<Rightarrow> False | Some e \<Rightarrow> hv = [mValue e] \<and> mNext e = previousHead))"

text \<open>
  \<open>consumer_view pc h mp fs\<close>: \<open>fs\<close> lists, oldest first, the entries that belong to the
  consumer: the pop list, or, inside a call, the entry about to be deleted followed by
  the pop list, or the part of the captured list not yet reversed (\<open>gs\<close>, newest first)
  followed by the part already reversed (\<open>ds\<close>).
\<close>

definition consumer_view ::
  "'a consumer_pc \<Rightarrow> (addr \<Rightarrow> 'a Entry option) \<Rightarrow> addr option \<Rightarrow> (addr \<times> 'a) list \<Rightarrow> bool" where
  "consumer_view pc h mp fs =
     (case pc of
        CIdle \<Rightarrow> chain h mp fs
      | CLoaded popped \<Rightarrow> chain h mp fs \<and> mp = Some popped
      | CUnlink popped next \<Rightarrow>
          chain h mp fs \<and> mp = Some popped \<and>
          (case h popped of None \<Rightarrow> False | Some e \<Rightarrow> mNext e = next)
      | CDelete a v \<Rightarrow>
          (case fs of [] \<Rightarrow> False | x # fs' \<Rightarrow> x = (a, v) \<and> h a \<noteq> None \<and> chain h mp fs')
      | CExchange \<Rightarrow> fs = [] \<and> mp = None
      | CTest popped g \<Rightarrow>
          mp = None \<and> (\<exists>gs ds. fs = rev gs @ ds \<and> gs \<noteq> [] \<and> chain h g gs \<and> chain h popped ds)
      | CNext popped g \<Rightarrow>
          mp = None \<and>
          (\<exists>x gs ds. fs = rev (x # gs) @ ds \<and> gs \<noteq> [] \<and> chain h (Some g) (x # gs) \<and>
             chain h popped ds)
      | CLink popped g next \<Rightarrow>
          mp = None \<and>
          (\<exists>x gs ds. fs = rev (x # gs) @ ds \<and> gs \<noteq> [] \<and> chain h (Some g) (x # gs) \<and>
             chain h next gs \<and> chain h popped ds)
      | CStore popped g \<Rightarrow>
          mp = None \<and> (\<exists>x ds. fs = x # ds \<and> chain h (Some g) [x] \<and> chain h popped ds))"

text \<open>
  \<open>producers_inv vals h linear owned ps\<close>: no producer's unpublished entry is owned by a
  list or by another producer, and the values of producer \<open>i\<close> that are in \<open>linear\<close> (the
  values returned so far followed by the queue's contents), then the value it holds,
  then its remaining values, are its list \<open>vals ! i\<close>.
\<close>

definition producers_inv ::
  "'a list list \<Rightarrow> (addr \<Rightarrow> 'a Entry option) \<Rightarrow> 'a list \<Rightarrow> addr set \<Rightarrow> 'a producer list \<Rightarrow> bool" where
  "producers_inv vals h linear owned ps \<longleftrightarrow>
     length ps = length vals \<and>
     (\<forall>i < length vals. in_flight (ps ! i) \<inter> owned = {}) \<and>
     (\<forall>i < length vals. \<forall>j < length vals. i \<noteq> j \<longrightarrow> in_flight (ps ! i) \<inter> in_flight (ps ! j) = {}) \<and>
     (\<forall>i < length vals. \<exists>hv. producer_holds h (ps ! i) hv \<and>
        vals ! i = filter (\<lambda>v. v \<in> set (vals ! i)) linear @ hv @ todo (ps ! i))"

text \<open>The invariant of the thread model.\<close>

definition system_inv :: "'a list list \<Rightarrow> 'a system \<Rightarrow> bool" where
  "system_inv vals s \<longleftrightarrow>
     (\<exists>ps fs.
        chain (entries (queue s)) (mPush (queue s)) ps \<and>
        consumer_view (consumer s) (entries (queue s)) (mPop (queue s)) fs \<and>
        distinct (map fst (fs @ ps)) \<and>
        set (out s @ map snd fs @ rev (map snd ps)) \<subseteq> set (concat vals) \<and>
        producers_inv vals (entries (queue s)) (out s @ map snd fs @ rev (map snd ps))
          (set (map fst (fs @ ps))) (producers s))"

section \<open>Two concrete states\<close>

text \<open>
  \<open>sample_queue\<close>: the pop list holds 10 (at address 1) and 20 (at 2), the push list
  holds 40 (at 4, pushed last) and 30 (at 3). \<open>sample_batch\<close>: the pop list is empty and
  the push list holds 50 (at 5), 40 (at 4) and 30 (at 3), newest first.
\<close>

definition sample_queue :: "nat LocklessQueue" where
  "sample_queue =
     \<lparr>entries = [1 \<mapsto> \<lparr>mValue = 10, mNext = Some 2\<rparr>, 2 \<mapsto> \<lparr>mValue = 20, mNext = None\<rparr>,
                 3 \<mapsto> \<lparr>mValue = 30, mNext = None\<rparr>, 4 \<mapsto> \<lparr>mValue = 40, mNext = Some 3\<rparr>],
      mPush = Some 4, mPop = Some 1\<rparr>"

definition sample_batch :: "nat LocklessQueue" where
  "sample_batch =
     \<lparr>entries = [3 \<mapsto> \<lparr>mValue = 30, mNext = None\<rparr>, 4 \<mapsto> \<lparr>mValue = 40, mNext = Some 3\<rparr>,
                 5 \<mapsto> \<lparr>mValue = 50, mNext = Some 4\<rparr>],
      mPush = Some 5, mPop = None\<rparr>"


definition sample_schedule :: "event list" where
  "sample_schedule =
     [Produce 0 10 False, Produce 1 11 False, Produce 0 0 False, Produce 1 0 False,
      Produce 0 0 False, Produce 1 0 False, Produce 1 0 False, Produce 0 0 False,
      Consume, Produce 0 0 False, Produce 0 0 True, Produce 0 0 False, Produce 0 0 False,
      Consume, Produce 1 12 False, Produce 1 0 False, Consume, Produce 1 0 False,
      Produce 1 0 False, Consume, Consume, Consume, Consume, Consume,
      Produce 0 11 False, Consume, Consume, Consume, Consume,
      Produce 0 0 False, Produce 0 0 False, Produce 0 0 False,
      Consume, Consume, Consume, Consume, Consume, Consume, Consume, Consume,
      Consume, Consume, Consume, Consume, Consume, Consume]"

section \<open>The test counter\<close>

text \<open>
  \<open>TestCounter\<close> holds an \<open>int32_t\<close>. In single-threaded use every
  \<open>lock_guard\<close> acquires and releases a free mutex and \<open>notify_all\<close> finds no
  waiting thread, so the count is the whole state. Adding one to \<open>INT32_MAX\<close> is a
  signed overflow, which C++ leaves undefined; the model records it as a fault.
\<close>

datatype arith_fault = SignedOverflow

record TestCounter =
  mCount :: "32 word"

definition TestCounter_ctor :: "32 word \<Rightarrow> TestCounter" where
  "TestCounter_ctor init = \<lparr>mCount = init\<rparr>"

text \<open>The default argument \<open>init = 0\<close>.\<close>

definition TestCounter_default :: TestCounter where
  "TestCounter_default = TestCounter_ctor 0"

definition get :: "TestCounter \<Rightarrow> 32 word" where
  "get c = mCount c"

definition increment :: "TestCounter \<Rightarrow> arith_fault + TestCounter" where
  "increment c =
     (if sint (mCount c) = 2147483647 then Inl SignedOverflow
      else Inr (c\<lparr>mCount := mCount c + 1\<rparr>))"

text \<open>\<open>n\<close> calls of \<open>increment\<close> in a row.\<close>

primrec increments :: "nat \<Rightarrow> TestCounter \<Rightarrow> arith_fault + TestCounter" where
  "increments 0 c = Inr c"
| "increments (Suc n) c =
     (case increment c of Inl f \<Rightarrow> Inl f | Inr c' \<Rightarrow> increments n c')"

section \<open>What push does\<close>

lemma push_loop_matching:
  "mPush q = p \<Longrightarrow> push_loop n a v p q =
     \<lparr>entries = (entries q)(a \<mapsto> \<lparr>mValue = v, mNext = p\<rparr>), mPush = Some a, mPop = mPop q\<rparr>"
proof (induction n arbitrary: q)
  case 0
  then show ?case by (subst push_loop.simps) (simp add: compare_exchange_weak_def)
next
  case (Suc n)
  let ?q1 = "q\<lparr>entries := (entries q)(a \<mapsto> \<lparr>mValue = v, mNext = p\<rparr>)\<rparr>"
  have step: "push_loop (Suc n) a v p q = push_loop n a v p ?q1"
    using Suc.prems by (subst push_loop.simps) (simp add: compare_exchange_weak_def)
  have "mPush ?q1 = p" using Suc.prems by simp
  from Suc.IH [OF this] show ?case unfolding step by (simp del: fun_upd_apply)
qed

lemma push_eq:
  "push a n v q = \<lparr>entries = (entries q)(a \<mapsto> \<lparr>mValue = v, mNext = mPush q\<rparr>), mPush = Some a, mPop = mPop q\<rparr>"
  by (simp add: push_def push_loop_matching)

lemma entries_push: "entries (push a n v q) = (entries q)(a \<mapsto> \<lparr>mValue = v, mNext = mPush q\<rparr>)"
  and mPush_push: "mPush (push a n v q) = Some a"
  and mPop_push: "mPop (push a n v q) = mPop q"
  by (simp_all add: push_eq del: fun_upd_apply)

section \<open>Properties of chains\<close>

lemma chain_live: "chain h p xs \<Longrightarrow> a \<in> set (map fst xs) \<Longrightarrow> h a \<noteq> None"
  by (induction xs arbitrary: p) (auto split: option.splits)

lemma chain_update_outside:
  "a \<notin> set (map fst xs) \<Longrightarrow> chain (h(a := y)) p xs = chain h p xs"
  by (induction xs arbitrary: p) (auto split: option.splits)

lemma chain_unique: "chain h p xs \<Longrightarrow> chain h p ys \<Longrightarrow> xs = ys"
proof (induction xs arbitrary: p ys)
  case Nil
  then show ?case by (cases ys) auto
next
  case (Cons x xs)
  then show ?case by (cases ys) (auto split: option.splits simp: prod_eq_iff)
qed

lemma chain_suffix: "chain h p (xs @ ys) \<Longrightarrow> \<exists>p'. chain h p' ys"
  by (induction xs arbitrary: p) (auto split: option.splits)

lemma chain_head_not_later:
  assumes "chain h p (x # xs)"
  shows "fst x \<notin> set (map fst xs)"
proof
  assume "fst x \<in> set (map fst xs)"
  then obtain y where y: "y \<in> set xs" "fst y = fst x" by auto
  then obtain us vs where xs: "xs = us @ y # vs" by (auto simp: in_set_conv_decomp)
  from assms have "chain h p ((x # us) @ y # vs)" by (simp add: xs)
  then obtain p' where "chain h p' (y # vs)" by (blast dest: chain_suffix)
  then have "chain h p (y # vs)" using assms y by (auto split: option.splits)
  with assms have "x # xs = y # vs" by (rule chain_unique)
  then show False by (simp add: xs)
qed

lemma chain_distinct: "chain h p xs \<Longrightarrow> distinct (map fst xs)"
proof (induction xs arbitrary: p)
  case Nil
  show ?case by simp
next
  case (Cons x xs)
  from Cons.prems have "fst x \<notin> set (map fst xs)" by (rule chain_head_not_later)
  moreover from Cons.prems obtain p' where "chain h p' xs" by (auto split: option.splits)
  then have "distinct (map fst xs)" by (rule Cons.IH)
  ultimately show ?case by simp
qed

section \<open>The reversal loop\<close>

lemma chain_last_entry:
  "chain h p (xs @ [z]) \<Longrightarrow> h (fst z) = Some \<lparr>mValue = snd z, mNext = None\<rparr>"
  by (induction xs arbitrary: p) (auto split: option.splits)

lemma reverse_loop_chain:
  assumes "chain h (Some g) (xs @ [z])" and "chain h popped bs"
    and "set (map fst (xs @ [z])) \<inter> set (map fst bs) = {}"
  shows "\<exists>h' p'. reverse_loop h popped g k = Some (Inr (h', p', fst z, k + length xs)) \<and>
           chain h' p' (rev xs @ bs) \<and>
           (\<forall>a. a \<notin> set (map fst xs) \<longrightarrow> h' a = h a)"
  using assms
proof (induction xs arbitrary: h popped g k bs)
  case Nil
  then have "reverse_loop h popped g k = Some (Inr (h, popped, fst z, k))"
    by (subst reverse_loop.simps) (auto split: option.splits)
  with Nil show ?case by simp
next
  case (Cons x xs)
  from Cons.prems(1) obtain e where g: "g = fst x" and e: "h g = Some e" "mValue e = snd x"
    and rest: "chain h (mNext e) (xs @ [z])"
    by (auto split: option.splits)
  from rest obtain nxt where nxt: "mNext e = Some nxt" by (cases xs) auto
  let ?h1 = "h(g \<mapsto> e\<lparr>mNext := popped\<rparr>)"
  have step: "reverse_loop h popped g k = reverse_loop ?h1 (Some g) nxt (Suc k)"
    by (subst reverse_loop.simps) (simp add: e nxt)
  from Cons.prems(1) have "chain h (Some g) (x # (xs @ [z]))" by simp
  then have "fst x \<notin> set (map fst (xs @ [z]))" by (rule chain_head_not_later)
  then have g_notin: "g \<notin> set (map fst (xs @ [z]))" using g by simp
  have g_notin_bs: "g \<notin> set (map fst bs)" using Cons.prems(3) g by auto
  have c1: "chain ?h1 (Some nxt) (xs @ [z])"
    using rest nxt g_notin by (simp add: chain_update_outside)
  have c2: "chain ?h1 (Some g) (x # bs)"
    using Cons.prems(2) g_notin_bs e g by (simp add: chain_update_outside)
  have c3: "set (map fst (xs @ [z])) \<inter> set (map fst (x # bs)) = {}"
    using Cons.prems(3) g_notin g by auto
  from Cons.IH [OF c1 c2 c3, of "Suc k"] obtain h' p' where
    r: "reverse_loop ?h1 (Some g) nxt (Suc k) = Some (Inr (h', p', fst z, Suc k + length xs))"
    and c: "chain h' p' (rev xs @ x # bs)"
    and f: "\<forall>a. a \<notin> set (map fst xs) \<longrightarrow> h' a = ?h1 a"
    by blast
  have "\<forall>a. a \<notin> set (map fst (x # xs)) \<longrightarrow> h' a = h a" using f g by auto
  with r c step show ?case by simp
qed

section \<open>What pop does\<close>

lemma pop_empty: "mPush q = None \<Longrightarrow> mPop q = None \<Longrightarrow> pop q = Some (Inr (None, q))"
  by (simp add: pop_def)

lemma pop_from_pop_list:
  assumes "mPop q = Some a" and "entries q a = Some e"
  shows "pop q = Some (Inr (Some (mValue e),
           \<lparr>entries = (entries q)(a := None), mPush = mPush q, mPop = mNext e\<rparr>))"
  using assms by (simp add: pop_def del: fun_upd_apply)

lemma pop_refill:
  assumes "mPop q = None" and "chain (entries q) (mPush q) (xs @ [z])"
  shows "\<exists>g h' p'. pop q = Some (Inr (Some (snd z),
             \<lparr>entries = h'(fst z := None), mPush = None, mPop = p'\<rparr>)) \<and>
           mPush q = Some g \<and>
           reverse_loop (entries q) None g 0 = Some (Inr (h', p', fst z, length xs)) \<and>
           chain (h'(fst z := None)) p' (rev xs) \<and>
           (\<forall>a. a \<notin> set (map fst xs) \<longrightarrow> h' a = entries q a)"
proof -
  from assms(2) obtain g where g: "mPush q = Some g" by (cases xs) auto
  have "chain (entries q) (Some g) (xs @ [z])" using assms(2) g by simp
  moreover have "chain (entries q) None []" by simp
  moreover have "set (map fst (xs @ [z])) \<inter> set (map fst []) = {}" by simp
  ultimately obtain h' p' where
    r: "reverse_loop (entries q) None g 0 = Some (Inr (h', p', fst z, 0 + length xs))"
    and c: "chain h' p' (rev xs @ [])"
    and f: "\<forall>a. a \<notin> set (map fst xs) \<longrightarrow> h' a = entries q a"
    by (blast dest: reverse_loop_chain)
  have "distinct (map fst (xs @ [z]))" using assms(2) by (rule chain_distinct)
  then have z: "fst z \<notin> set (map fst xs)" by simp
  then have "h' (fst z) = entries q (fst z)" using f by simp
  also have "\<dots> = Some \<lparr>mValue = snd z, mNext = None\<rparr>"
    using assms(2) by (rule chain_last_entry)
  finally have hz: "h' (fst z) = Some \<lparr>mValue = snd z, mNext = None\<rparr>" .
  have "pop q = Some (Inr (Some (snd z), \<lparr>entries = h'(fst z := None), mPush = None, mPop = p'\<rparr>))"
    using assms(1) g r hz by (simp add: pop_def del: fun_upd_apply)
  moreover have "chain (h'(fst z := None)) p' (rev xs)"
    using c z by (simp add: chain_update_outside)
  ultimately show ?thesis using r f g by auto
qed

section \<open>The operations refine the FIFO queue\<close>

lemma queue_inv_push:
  assumes "queue_inv q ps qs" and "entries q a = None"
  shows "queue_inv (push a n v q) ((a, v) # ps) qs"
proof -
  have "chain (entries q) (mPush q) ps" "chain (entries q) (mPop q) qs"
    using assms(1) by (simp_all add: queue_inv_def)
  then have a1: "a \<notin> set (map fst ps)" and a2: "a \<notin> set (map fst qs)"
    using assms(2) chain_live by blast+
  then show ?thesis using assms(1)
    by (simp add: queue_inv_def entries_push mPush_push mPop_push chain_update_outside
             fun_upd_same del: fun_upd_apply)
qed

lemma chain_None: "chain h None xs \<longleftrightarrow> xs = []"
  by (cases xs) auto

lemma queue_inv_pop:
  assumes "queue_inv q ps qs"
  shows "\<exists>q' ps' qs'. invoke Pop q = Some (Inr (fst (fifo_invoke Pop (contents ps qs)), q')) \<and>
           queue_inv q' ps' qs' \<and> contents ps' qs' = snd (fifo_invoke Pop (contents ps qs))"
proof (cases qs)
  case (Cons x qs')
  from assms Cons obtain e where p: "mPop q = Some (fst x)" and e: "entries q (fst x) = Some e"
    "mValue e = snd x" and rest: "chain (entries q) (mNext e) qs'"
    by (auto simp: queue_inv_def split: option.splits)
  let ?q' = "\<lparr>entries = (entries q)(fst x := None), mPush = mPush q, mPop = mNext e\<rparr>"
  have r: "pop q = Some (Inr (Some (snd x), ?q'))"
    using pop_from_pop_list [OF p e(1)] e(2) by simp
  have "chain (entries q) (mPop q) (x # qs')" using assms Cons by (simp add: queue_inv_def)
  then have "fst x \<notin> set (map fst qs')" by (rule chain_head_not_later)
  moreover have "fst x \<notin> set (map fst ps)" using assms Cons by (auto simp: queue_inv_def)
  ultimately have "queue_inv ?q' ps qs'"
    using assms Cons rest by (auto simp: queue_inv_def chain_update_outside simp del: fun_upd_apply)
  then show ?thesis using r Cons by (auto simp: contents_def)
next
  case Nil
  then have p: "mPop q = None" using assms by (simp add: queue_inv_def)
  show ?thesis
  proof (cases ps rule: rev_cases)
    case Nil
    then have "mPush q = None" using assms by (simp add: queue_inv_def)
    then have "pop q = Some (Inr (None, q))" using p by (rule pop_empty)
    then show ?thesis using assms Nil \<open>qs = []\<close> by (auto simp: contents_def)
  next
    case (snoc xs z)
    then have "chain (entries q) (mPush q) (xs @ [z])" using assms by (simp add: queue_inv_def)
    from pop_refill [OF p this] obtain h' p' where
      r: "pop q = Some (Inr (Some (snd z), \<lparr>entries = h'(fst z := None), mPush = None, mPop = p'\<rparr>))"
      and c: "chain (h'(fst z := None)) p' (rev xs)"
      by blast
    have "queue_inv \<lparr>entries = h'(fst z := None), mPush = None, mPop = p'\<rparr> [] (rev xs)"
      using c by (simp add: queue_inv_def del: fun_upd_apply)
    then show ?thesis using r snoc \<open>qs = []\<close> by (auto simp: contents_def rev_map)
  qed
qed

lemma queue_inv_isEmpty:
  assumes "queue_inv q ps qs"
  shows "isEmpty q = (contents ps qs = [], q)"
proof -
  have "mPush q = None \<longleftrightarrow> ps = []" "mPop q = None \<longleftrightarrow> qs = []"
    using assms by (auto simp: queue_inv_def chain_None)
  then show ?thesis by (auto simp: isEmpty_def contents_def)
qed

lemma invoke_refines:
  assumes "queue_inv q ps qs" and "case c of Push v a n \<Rightarrow> entries q a = None | _ \<Rightarrow> True"
  shows "\<exists>q' ps' qs'. invoke c q = Some (Inr (fst (fifo_invoke c (contents ps qs)), q')) \<and>
           queue_inv q' ps' qs' \<and> contents ps' qs' = snd (fifo_invoke c (contents ps qs))"
proof (cases c)
  case (Push v a n)
  then have "queue_inv (push a n v q) ((a, v) # ps) qs" using assms by (simp add: queue_inv_push)
  moreover have "contents ((a, v) # ps) qs = contents ps qs @ [v]" by (simp add: contents_def)
  ultimately show ?thesis using Push by fastforce
next
  case Pop
  then show ?thesis using queue_inv_pop [OF assms(1)] by simp
next
  case IsEmpty
  then show ?thesis using assms(1) by (auto simp: queue_inv_isEmpty)
qed

lemma run_refines:
  assumes "queue_inv q ps qs" and "allocator_ok cs q"
  shows "\<exists>q' ps' qs'. run cs q = Some (Inr (fst (fifo_run cs (contents ps qs)), q')) \<and>
           queue_inv q' ps' qs' \<and> contents ps' qs' = snd (fifo_run cs (contents ps qs))"
  using assms
proof (induction cs arbitrary: q ps qs)
  case Nil
  then show ?case by auto
next
  case (Cons c cs)
  from Cons.prems(2) have "case c of Push v a n \<Rightarrow> entries q a = None | _ \<Rightarrow> True" by simp
  from invoke_refines [OF Cons.prems(1) this] obtain q1 ps1 qs1 where
    i: "invoke c q = Some (Inr (fst (fifo_invoke c (contents ps qs)), q1))"
    and inv: "queue_inv q1 ps1 qs1"
    and con: "contents ps1 qs1 = snd (fifo_invoke c (contents ps qs))" by blast
  have "allocator_ok cs q1" using Cons.prems(2) i by simp
  from Cons.IH [OF inv this] obtain q' ps' qs' where
    r: "run cs q1 = Some (Inr (fst (fifo_run cs (contents ps1 qs1)), q'))"
    and inv': "queue_inv q' ps' qs'"
    and con': "contents ps' qs' = snd (fifo_run cs (contents ps1 qs1))" by blast
  have "run (c # cs) q = Some (Inr (fst (fifo_run (c # cs) (contents ps qs)), q'))"
    using i r con by (simp split: prod.splits)
  moreover have "contents ps' qs' = snd (fifo_run (c # cs) (contents ps qs))"
    using con con' by (simp split: prod.splits)
  ultimately show ?case using inv' by blast
qed

lemma queue_inv_fresh: "queue_inv (fresh_queue h) [] []"
  by (simp add: queue_inv_def fresh_queue_def)

section \<open>Reachable entries\<close>

lemma reaches_in_chain:
  "reaches h p a \<Longrightarrow> chain h p xs \<Longrightarrow> a \<in> set (map fst xs)"
proof (induction arbitrary: xs rule: reaches.induct)
  case (reaches_head a)
  then show ?case by (cases xs) auto
next
  case (reaches_next a e b)
  then show ?case by (cases xs) (auto split: option.splits)
qed

lemma queue_inv_disjoint:
  assumes "queue_inv q ps qs"
  shows "\<not> (reaches (entries q) (mPush q) a \<and> reaches (entries q) (mPop q) a)"
proof
  assume "reaches (entries q) (mPush q) a \<and> reaches (entries q) (mPop q) a"
  then have "a \<in> set (map fst ps)" "a \<in> set (map fst qs)"
    using assms by (auto simp only: queue_inv_def dest: reaches_in_chain)
  then show False using assms by (auto simp: queue_inv_def)
qed

section \<open>Signed 32-bit increments\<close>

lemma sint_succ:
  fixes w :: "32 word"
  assumes "sint w \<noteq> 2147483647"
  shows "sint (w + 1) = sint w + 1"
proof -
  have b: "sint w < 2147483648" "- 2147483648 \<le> sint w"
    using sint_lt [of w] sint_ge [of w] by simp_all
  have "sint (w + 1) = signed_take_bit 31 (sint w + 1)"
    by (simp add: sint_word_ariths)
  also have "\<dots> = sint w + 1"
    using b assms by (intro signed_take_bit_int_eq_self) simp_all
  finally show ?thesis .
qed

lemma increments_exact:
  "sint (mCount c) + int n \<le> 2147483647 \<Longrightarrow>
     \<exists>c'. increments n c = Inr c' \<and> sint (mCount c') = sint (mCount c) + int n"
proof (induction n arbitrary: c)
  case 0
  show ?case by simp
next
  case (Suc n)
  then have ne: "sint (mCount c) \<noteq> 2147483647" by simp
  let ?c1 = "c\<lparr>mCount := mCount c + 1\<rparr>"
  have i: "increment c = Inr ?c1" using ne by (simp add: increment_def)
  have s: "sint (mCount ?c1) = sint (mCount c) + 1" using ne by (simp add: sint_succ)
  then have "sint (mCount ?c1) + int n \<le> 2147483647" using Suc.prems by simp
  from Suc.IH [OF this] obtain c' where
    "increments n ?c1 = Inr c'" "sint (mCount c') = sint (mCount ?c1) + int n" by blast
  then show ?case using i s by simp
qed

section \<open>The thread model preserves its invariant\<close>

lemma chain_cong_on:
  "chain h p xs \<Longrightarrow> \<forall>x \<in> set xs. h' (fst x) = h (fst x) \<Longrightarrow> chain h' p xs"
  by (induction xs arbitrary: p) (auto split: option.splits)

lemma chain_live_pair: "chain h p xs \<Longrightarrow> (a, v) \<in> set xs \<Longrightarrow> \<exists>e. h a = Some e"
  by (induction xs arbitrary: p) (auto split: option.splits)

lemma consumer_view_CTest:
  "mp = None \<Longrightarrow> fs = rev gs @ ds \<Longrightarrow> gs \<noteq> [] \<Longrightarrow> chain h g gs \<Longrightarrow> chain h popped ds \<Longrightarrow>
     consumer_view (CTest popped g) h mp fs"
  unfolding consumer_view_def by (simp del: chain.simps rev.simps split_paired_Ex; blast)

lemma consumer_view_CNext:
  "mp = None \<Longrightarrow> fs = rev (x # gs) @ ds \<Longrightarrow> gs \<noteq> [] \<Longrightarrow> chain h (Some g) (x # gs) \<Longrightarrow>
     chain h popped ds \<Longrightarrow> consumer_view (CNext popped g) h mp fs"
  unfolding consumer_view_def by (simp del: chain.simps rev.simps split_paired_Ex; blast)

lemma consumer_view_CLink:
  "mp = None \<Longrightarrow> fs = rev (x # gs) @ ds \<Longrightarrow> gs \<noteq> [] \<Longrightarrow> chain h (Some g) (x # gs) \<Longrightarrow>
     chain h nxt gs \<Longrightarrow> chain h popped ds \<Longrightarrow> consumer_view (CLink popped g nxt) h mp fs"
  unfolding consumer_view_def by (simp del: chain.simps rev.simps split_paired_Ex; blast)

lemma consumer_view_CStore:
  "mp = None \<Longrightarrow> fs = x # ds \<Longrightarrow> chain h (Some g) [x] \<Longrightarrow> chain h popped ds \<Longrightarrow>
     consumer_view (CStore popped g) h mp fs"
  unfolding consumer_view_def by (simp del: chain.simps rev.simps split_paired_Ex; blast)

lemma chain_Some_head: "chain h (Some a) xs \<Longrightarrow> \<exists>v ys. xs = (a, v) # ys"
  by (cases xs) auto

lemma consumer_step_view:
  assumes v: "consumer_view pc (entries q) (mPop q) fs"
    and c: "chain (entries q) (mPush q) ps"
    and d: "distinct (map fst (fs @ ps))"
  shows "\<exists>pc' q' w ps' fs'.
           consumer_step pc q vs = Inr (pc', q', vs @ w) \<and>
           chain (entries q') (mPush q') ps' \<and>
           consumer_view pc' (entries q') (mPop q') fs' \<and>
           map snd fs @ rev (map snd ps) = w @ map snd fs' @ rev (map snd ps') \<and>
           set (map fst (fs' @ ps')) \<subseteq> set (map fst (fs @ ps)) \<and>
           distinct (map fst (fs' @ ps')) \<and>
           (\<forall>a. a \<notin> set (map fst (fs @ ps)) \<longrightarrow> entries q' a = entries q a)"
proof (cases pc)
  case CIdle
  show ?thesis
  proof (cases "mPop q")
    case None
    then have "fs = []" using v CIdle by (simp add: consumer_view_def chain_None)
    then have "consumer_step pc q vs = Inr (CExchange, q, vs @ [])"
      "consumer_view CExchange (entries q) (mPop q) fs"
      using None CIdle by (simp_all add: consumer_step_def consumer_view_def)
    then show ?thesis using c d by blast
  next
    case (Some popped)
    then have "consumer_step pc q vs = Inr (CLoaded popped, q, vs @ [])"
      "consumer_view (CLoaded popped) (entries q) (mPop q) fs"
      using v CIdle by (simp_all add: consumer_step_def consumer_view_def)
    then show ?thesis using c d by blast
  qed
next
  case (CLoaded popped)
  then have ch: "chain (entries q) (Some popped) fs" and mp: "mPop q = Some popped"
    using v by (auto simp: consumer_view_def)
  then obtain e where e: "entries q popped = Some e"
    by (cases fs) (auto split: option.splits)
  then have "consumer_step pc q vs = Inr (CUnlink popped (mNext e), q, vs @ [])"
    "consumer_view (CUnlink popped (mNext e)) (entries q) (mPop q) fs"
    using ch mp CLoaded by (simp_all add: consumer_step_def consumer_view_def)
  then show ?thesis using c d by blast
next
  case (CUnlink popped nxt)
  then have ch: "chain (entries q) (Some popped) fs" and mp: "mPop q = Some popped"
    using v by (auto simp: consumer_view_def)
  from v CUnlink obtain e where e: "entries q popped = Some e" "mNext e = nxt"
    by (auto simp: consumer_view_def split: option.splits)
  from ch e obtain fs' where fs: "fs = (popped, mValue e) # fs'" and ch': "chain (entries q) nxt fs'"
    by (cases fs) (auto simp: prod_eq_iff)
  let ?q' = "q\<lparr>mPop := nxt\<rparr>"
  have s: "consumer_step pc q vs = Inr (CDelete popped (mValue e), ?q', vs @ [])"
    using CUnlink e by (simp add: consumer_step_def)
  have "consumer_view (CDelete popped (mValue e)) (entries ?q') (mPop ?q') fs"
    using fs ch' e by (simp add: consumer_view_def)
  moreover have "chain (entries ?q') (mPush ?q') ps" using c by simp
  moreover have "\<forall>a. a \<notin> set (map fst (fs @ ps)) \<longrightarrow> entries ?q' a = entries q a" by simp
  ultimately show ?thesis using s d by blast
next
  case (CDelete a x)
  then obtain fs' where fs: "fs = (a, x) # fs'" and live: "entries q a \<noteq> None"
    and ch': "chain (entries q) (mPop q) fs'"
    using v by (auto simp: consumer_view_def split: list.splits)
  let ?q' = "q\<lparr>entries := (entries q)(a := None)\<rparr>"
  have s: "consumer_step pc q vs = Inr (CIdle, ?q', vs @ [x])"
    using CDelete live by (auto simp: consumer_step_def)
  have na: "a \<notin> set (map fst fs')" "a \<notin> set (map fst ps)" using d fs by auto
  have "consumer_view CIdle (entries ?q') (mPop ?q') fs'"
    using ch' na by (simp add: consumer_view_def chain_update_outside del: fun_upd_apply)
  moreover have "chain (entries ?q') (mPush ?q') ps"
    using c na by (simp add: chain_update_outside del: fun_upd_apply)
  moreover have "map snd fs @ rev (map snd ps) = [x] @ map snd fs' @ rev (map snd ps)"
    by (simp add: fs)
  moreover have "set (map fst (fs' @ ps)) \<subseteq> set (map fst (fs @ ps))" by (auto simp: fs)
  moreover have "distinct (map fst (fs' @ ps))" using d by (simp add: fs)
  moreover have "\<forall>b. b \<notin> set (map fst (fs @ ps)) \<longrightarrow> entries ?q' b = entries q b"
    by (simp add: fs)
  ultimately show ?thesis using s by blast
next
  case CExchange
  then have fs: "fs = []" and mp: "mPop q = None" using v by (simp_all add: consumer_view_def)
  let ?q' = "q\<lparr>mPush := None\<rparr>"
  show ?thesis
  proof (cases "mPush q")
    case None
    then have "ps = []" using c by (simp add: chain_None)
    moreover have "consumer_step pc q vs = Inr (CIdle, ?q', vs @ [])"
      using CExchange None by (simp add: consumer_step_def)
    moreover have "consumer_view CIdle (entries ?q') (mPop ?q') []"
      using mp by (simp add: consumer_view_def)
    moreover have "chain (entries ?q') (mPush ?q') []" by simp
    ultimately show ?thesis using fs by (intro exI [of _ CIdle] exI [of _ ?q'] exI [of _ "[]"]) simp
  next
    case (Some g)
    then have ne: "ps \<noteq> []" using c by auto
    have s: "consumer_step pc q vs = Inr (CTest None (Some g), ?q', vs @ [])"
      using CExchange Some by (simp add: consumer_step_def)
    have "\<exists>gs ds. rev ps = rev gs @ ds \<and> gs \<noteq> [] \<and> chain (entries q) (Some g) gs \<and>
        chain (entries q) None ds"
      using c Some ne by (intro exI [of _ ps] exI [of _ "[]"]) simp
    then have "consumer_view (CTest None (Some g)) (entries ?q') (mPop ?q') (rev ps)"
      using mp by (simp add: consumer_view_def)
    moreover have "chain (entries ?q') (mPush ?q') []" by simp
    moreover have "map snd fs @ rev (map snd ps) = [] @ map snd (rev ps) @ rev (map snd [])"
      by (simp add: fs rev_map)
    moreover have "set (map fst (rev ps @ [])) \<subseteq> set (map fst (fs @ ps))" by auto
    moreover have "distinct (map fst (rev ps @ []))" using d by (simp add: fs distinct_rev rev_map [symmetric])
    moreover have "\<forall>a. a \<notin> set (map fst (fs @ ps)) \<longrightarrow> entries ?q' a = entries q a" by simp
    ultimately show ?thesis using s by blast
  qed
next
  case (CTest popped g)
  then obtain gs ds where mp: "mPop q = None" and fs: "fs = rev gs @ ds" and ne: "gs \<noteq> []"
    and cg: "chain (entries q) g gs" and cd: "chain (entries q) popped ds"
    using v by (auto simp: consumer_view_def)
  from ne cg obtain x gs' e where gs: "gs = x # gs'" and g: "g = Some (fst x)"
    and e: "entries q (fst x) = Some e" "mValue e = snd x" and cg': "chain (entries q) (mNext e) gs'"
    by (cases gs) (auto split: option.splits)
  show ?thesis
  proof (cases "mNext e")
    case None
    then have gs': "gs' = []" using cg' by (simp add: chain_None)
    have s: "consumer_step pc q vs = Inr (CStore popped (fst x), q, vs @ [])"
      using CTest g e None by (simp add: consumer_step_def)
    have "\<exists>y ds'. fs = y # ds' \<and> chain (entries q) (Some (fst x)) [y] \<and>
        chain (entries q) popped ds'"
      using fs gs gs' cg cd g by (intro exI [of _ x] exI [of _ ds]) simp
    then have "consumer_view (CStore popped (fst x)) (entries q) (mPop q) fs"
      using mp by (simp add: consumer_view_def)
    then show ?thesis using s c d by blast
  next
    case (Some nxt)
    then have ne': "gs' \<noteq> []" using cg' by auto
    have s: "consumer_step pc q vs = Inr (CNext popped (fst x), q, vs @ [])"
      using CTest g e Some by (simp add: consumer_step_def)
    have "\<exists>y gs'' ds'. fs = rev (y # gs'') @ ds' \<and> gs'' \<noteq> [] \<and>
        chain (entries q) (Some (fst x)) (y # gs'') \<and> chain (entries q) popped ds'"
      using fs gs ne' cg cd g by (intro exI [of _ x] exI [of _ gs'] exI [of _ ds]) simp
    then have "consumer_view (CNext popped (fst x)) (entries q) (mPop q) fs"
      using mp by (simp add: consumer_view_def)
    then show ?thesis using s c d by blast
  qed
next
  case (CNext popped g)
  then obtain x gs ds where mp: "mPop q = None" and fs: "fs = rev (x # gs) @ ds" and ne: "gs \<noteq> []"
    and cg: "chain (entries q) (Some g) (x # gs)" and cd: "chain (entries q) popped ds"
    using v by (auto simp: consumer_view_def)
  from cg obtain e where e: "entries q g = Some e" and cg': "chain (entries q) (mNext e) gs"
    by (auto split: option.splits)
  have s: "consumer_step pc q vs = Inr (CLink popped g (mNext e), q, vs @ [])"
    using CNext e by (simp add: consumer_step_def)
  have "\<exists>y gs' ds'. fs = rev (y # gs') @ ds' \<and> gs' \<noteq> [] \<and>
      chain (entries q) (Some g) (y # gs') \<and> chain (entries q) (mNext e) gs' \<and>
      chain (entries q) popped ds'"
    using fs ne cg cg' cd by (intro exI [of _ x] exI [of _ gs] exI [of _ ds]) simp
  then have "consumer_view (CLink popped g (mNext e)) (entries q) (mPop q) fs"
    using mp by (simp add: consumer_view_def)
  then show ?thesis using s c d by blast
next
  case (CLink popped g nxt)
  then obtain x gs ds where mp: "mPop q = None" and fs: "fs = rev (x # gs) @ ds" and ne: "gs \<noteq> []"
    and cg: "chain (entries q) (Some g) (x # gs)" and cn: "chain (entries q) nxt gs"
    and cd: "chain (entries q) popped ds"
    using v by (auto simp: consumer_view_def)
  from cg obtain e where gx: "g = fst x" and e: "entries q g = Some e" "mValue e = snd x"
    by (auto split: option.splits)
  let ?h' = "(entries q)(g \<mapsto> e\<lparr>mNext := popped\<rparr>)"
  let ?q' = "q\<lparr>entries := ?h'\<rparr>"
  have s: "consumer_step pc q vs = Inr (CTest (Some g) nxt, ?q', vs @ [])"
    using CLink e by (simp add: consumer_step_def)
  have ng: "g \<notin> set (map fst gs)" "g \<notin> set (map fst ds)" "g \<notin> set (map fst ps)"
    using d fs gx by auto
  have "chain ?h' nxt gs" using cn ng by (simp add: chain_update_outside)
  moreover have "chain ?h' (Some g) (x # ds)"
    using cd ng e gx by (simp add: chain_update_outside)
  ultimately have "\<exists>gs' ds'. fs = rev gs' @ ds' \<and> gs' \<noteq> [] \<and> chain ?h' nxt gs' \<and>
      chain ?h' (Some g) ds'"
    using fs ne by (intro exI [of _ gs] exI [of _ "x # ds"]) (simp del: fun_upd_apply chain.simps)
  then have "consumer_view (CTest (Some g) nxt) (entries ?q') (mPop ?q') fs"
    using mp by (simp add: consumer_view_def del: fun_upd_apply)
  moreover have "chain (entries ?q') (mPush ?q') ps"
    using c ng by (simp add: chain_update_outside del: fun_upd_apply)
  moreover have "\<forall>a. a \<notin> set (map fst (fs @ ps)) \<longrightarrow> entries ?q' a = entries q a"
    using fs gx by auto
  ultimately show ?thesis using s d by blast
next
  case (CStore popped g)
  then obtain x ds where mp: "mPop q = None" and fs: "fs = x # ds"
    and cg: "chain (entries q) (Some g) [x]" and cd: "chain (entries q) popped ds"
    using v by (auto simp: consumer_view_def)
  from cg obtain e where gx: "g = fst x" and e: "entries q g = Some e" "mValue e = snd x"
    by (auto split: option.splits)
  let ?q' = "q\<lparr>mPop := popped\<rparr>"
  have s: "consumer_step pc q vs = Inr (CDelete g (mValue e), ?q', vs @ [])"
    using CStore e by (simp add: consumer_step_def)
  have "consumer_view (CDelete g (mValue e)) (entries ?q') (mPop ?q') fs"
    using fs cd e gx by (simp add: consumer_view_def prod_eq_iff)
  moreover have "chain (entries ?q') (mPush ?q') ps" using c by simp
  moreover have "\<forall>a. a \<notin> set (map fst (fs @ ps)) \<longrightarrow> entries ?q' a = entries q a" by simp
  ultimately show ?thesis using s d by blast
qed

lemma chain_cong_sub:
  "chain h p xs \<Longrightarrow> set xs \<subseteq> set fs \<Longrightarrow> \<forall>x \<in> set fs. h' (fst x) = h (fst x) \<Longrightarrow>
     chain h' p xs"
  by (blast intro: chain_cong_on)

lemma consumer_view_cong:
  assumes "consumer_view pc h mp fs" and "\<forall>x \<in> set fs. h' (fst x) = h (fst x)"
  shows "consumer_view pc h' mp fs"
proof (cases pc)
  case CIdle
  then show ?thesis using assms by (auto simp: consumer_view_def intro: chain_cong_on)
next
  case (CLoaded popped)
  then show ?thesis using assms by (auto simp: consumer_view_def intro: chain_cong_on)
next
  case (CUnlink popped nxt)
  with assms(1) have ch: "chain h (Some popped) fs" and mp: "mp = Some popped"
    and e: "case h popped of None \<Rightarrow> False | Some e \<Rightarrow> mNext e = nxt"
    by (auto simp: consumer_view_def)
  from ch obtain v ys where "fs = (popped, v) # ys" by (auto dest: chain_Some_head)
  then have "h' popped = h popped" using assms(2) by simp
  moreover have "chain h' (Some popped) fs" using ch assms(2) by (rule chain_cong_on)
  ultimately show ?thesis using CUnlink mp e by (simp add: consumer_view_def)
next
  case (CDelete a v)
  then obtain fs' where fs: "fs = (a, v) # fs'" and l: "h a \<noteq> None" and c: "chain h mp fs'"
    using assms(1) by (cases fs) (auto simp: consumer_view_def)
  have "chain h' mp fs'" using c fs by (auto intro: chain_cong_sub [OF _ _ assms(2)])
  moreover have "h' a = h a" using assms(2) fs by simp
  ultimately show ?thesis using CDelete fs l by (simp add: consumer_view_def)
next
  case CExchange
  then show ?thesis using assms by (simp add: consumer_view_def)
next
  case (CTest popped g)
  then obtain gs ds where "mp = None" "fs = rev gs @ ds" "gs \<noteq> []" "chain h g gs" "chain h popped ds"
    using assms(1) by (auto simp: consumer_view_def)
  moreover from this have "chain h' g gs" "chain h' popped ds"
    by (auto intro: chain_cong_sub [OF _ _ assms(2)])
  ultimately show ?thesis using CTest by (simp add: consumer_view_CTest)
next
  case (CNext popped g)
  then obtain x gs ds where "mp = None" "fs = rev (x # gs) @ ds" "gs \<noteq> []"
    "chain h (Some g) (x # gs)" "chain h popped ds"
    using assms(1) by (auto simp: consumer_view_def)
  moreover from this have "chain h' (Some g) (x # gs)" "chain h' popped ds"
    by (auto intro: chain_cong_sub [OF _ _ assms(2)] simp del: chain.simps)
  ultimately show ?thesis using CNext by (simp add: consumer_view_CNext del: chain.simps)
next
  case (CLink popped g nxt)
  then obtain x gs ds where "mp = None" "fs = rev (x # gs) @ ds" "gs \<noteq> []"
    "chain h (Some g) (x # gs)" "chain h nxt gs" "chain h popped ds"
    using assms(1) by (auto simp: consumer_view_def)
  moreover from this have "chain h' (Some g) (x # gs)" "chain h' nxt gs" "chain h' popped ds"
    by (auto intro: chain_cong_sub [OF _ _ assms(2)] simp del: chain.simps)
  ultimately show ?thesis using CLink by (simp add: consumer_view_CLink del: chain.simps)
next
  case (CStore popped g)
  then obtain x ds where "mp = None" "fs = x # ds" "chain h (Some g) [x]" "chain h popped ds"
    using assms(1) by (auto simp: consumer_view_def)
  moreover from this have "chain h' (Some g) [x]" "chain h' popped ds"
    by (auto intro: chain_cong_sub [OF _ _ assms(2)] simp del: chain.simps)
  ultimately show ?thesis using CStore by (simp add: consumer_view_CStore del: chain.simps)
qed

lemma consumer_view_live:
  assumes "consumer_view pc h mp fs" and "a \<in> set (map fst fs)"
  shows "h a \<noteq> None"
proof (cases pc)
  case (CDelete b v)
  then obtain fs' where "fs = (b, v) # fs'" "h b \<noteq> None" "chain h mp fs'"
    using assms(1) by (cases fs) (auto simp: consumer_view_def)
  then show ?thesis using assms(2) by (auto dest: chain_live_pair)
qed (use assms in \<open>auto simp: consumer_view_def split: option.splits\<close>, (blast dest: chain_live_pair)+)

lemma producer_holds_cong:
  "producer_holds h p hv \<Longrightarrow> \<forall>a \<in> in_flight p. h' a = h a \<Longrightarrow> producer_holds h' p hv"
  by (cases "ppc p") (simp_all add: producer_holds_def in_flight_def)

lemma producer_holds_live: "producer_holds h p hv \<Longrightarrow> a \<in> in_flight p \<Longrightarrow> h a \<noteq> None"
  by (cases "ppc p") (auto simp: producer_holds_def in_flight_def split: option.splits)

lemma producers_inv_frame:
  assumes "producers_inv vals h linear owned ps" and "owned' \<subseteq> owned"
    and "\<forall>a. a \<notin> owned \<longrightarrow> h' a = h a"
  shows "producers_inv vals h' linear owned' ps"
proof -
  have "producer_holds h' (ps ! i) hv" if "i < length vals" "producer_holds h (ps ! i) hv" for i hv
    using that(2)
  proof (rule producer_holds_cong)
    from assms(1) that have "in_flight (ps ! i) \<inter> owned = {}" by (simp add: producers_inv_def)
    then show "\<forall>a \<in> in_flight (ps ! i). h' a = h a" using assms(3) by blast
  qed
  then show ?thesis using assms(1,2) unfolding producers_inv_def by blast
qed

lemma producers_inv_update:
  assumes inv: "producers_inv vals h linear owned ps" and i: "i < length vals"
    and own: "in_flight p' \<inter> owned' = {}"
    and sep: "\<forall>j < length vals. j \<noteq> i \<longrightarrow> in_flight p' \<inter> in_flight (ps ! j) = {}"
    and holds: "\<exists>hv. producer_holds h' p' hv \<and>
        vals ! i = filter (\<lambda>v. v \<in> set (vals ! i)) linear' @ hv @ todo p'"
    and others: "\<forall>j < length vals. j \<noteq> i \<longrightarrow>
        in_flight (ps ! j) \<inter> owned' = {} \<and>
        (\<forall>hv. producer_holds h (ps ! j) hv \<longrightarrow> producer_holds h' (ps ! j) hv) \<and>
        filter (\<lambda>v. v \<in> set (vals ! j)) linear' = filter (\<lambda>v. v \<in> set (vals ! j)) linear"
  shows "producers_inv vals h' linear' owned' (ps[i := p'])"
  unfolding producers_inv_def
proof (intro conjI allI impI)
  show "length (ps[i := p']) = length vals" using inv by (simp add: producers_inv_def)
next
  fix j assume "j < length vals"
  then show "in_flight (ps[i := p'] ! j) \<inter> owned' = {}"
    using inv i own others by (cases "j = i") (simp_all add: producers_inv_def)
next
  fix j k assume "j < length vals" "k < length vals" "j \<noteq> k"
  then show "in_flight (ps[i := p'] ! j) \<inter> in_flight (ps[i := p'] ! k) = {}"
    using inv i sep by (cases "j = i"; cases "k = i") (auto simp: producers_inv_def)
next
  fix j assume j: "j < length vals"
  show "\<exists>hv. producer_holds h' (ps[i := p'] ! j) hv \<and>
      vals ! j = filter (\<lambda>v. v \<in> set (vals ! j)) linear' @ hv @ todo (ps[i := p'] ! j)"
  proof (cases "j = i")
    case True
    then show ?thesis using inv i holds by (simp add: producers_inv_def)
  next
    case False
    from inv j obtain hv where "producer_holds h (ps ! j) hv"
      "vals ! j = filter (\<lambda>v. v \<in> set (vals ! j)) linear @ hv @ todo (ps ! j)"
      unfolding producers_inv_def by blast
    then show ?thesis using False j others by auto
  qed
qed

lemma step_consume_inv:
  assumes "system_inv vals s"
  shows "\<exists>s'. step Consume s = Some (Inr s') \<and> system_inv vals s'"
proof -
  from assms obtain ps fs where
    c: "chain (entries (queue s)) (mPush (queue s)) ps"
    and v: "consumer_view (consumer s) (entries (queue s)) (mPop (queue s)) fs"
    and d: "distinct (map fst (fs @ ps))"
    and sub: "set (out s @ map snd fs @ rev (map snd ps)) \<subseteq> set (concat vals)"
    and pr: "producers_inv vals (entries (queue s)) (out s @ map snd fs @ rev (map snd ps))
          (set (map fst (fs @ ps))) (producers s)"
    unfolding system_inv_def by blast
  from consumer_step_view [OF v c d, of "out s"] obtain pc' q' w ps' fs' where
    st: "consumer_step (consumer s) (queue s) (out s) = Inr (pc', q', out s @ w)"
    and c': "chain (entries q') (mPush q') ps'"
    and v': "consumer_view pc' (entries q') (mPop q') fs'"
    and lin: "map snd fs @ rev (map snd ps) = w @ map snd fs' @ rev (map snd ps')"
    and own: "set (map fst (fs' @ ps')) \<subseteq> set (map fst (fs @ ps))"
    and d': "distinct (map fst (fs' @ ps'))"
    and fr': "\<forall>a. a \<notin> set (map fst (fs @ ps)) \<longrightarrow> entries q' a = entries (queue s) a"
    by blast
  let ?s' = "s\<lparr>queue := q', consumer := pc', out := out s @ w\<rparr>"
  have lin': "(out s @ w) @ map snd fs' @ rev (map snd ps') = out s @ map snd fs @ rev (map snd ps)"
    using lin by simp
  have "producers_inv vals (entries q') (out s @ map snd fs @ rev (map snd ps))
      (set (map fst (fs' @ ps'))) (producers s)"
    using pr own fr' by (rule producers_inv_frame)
  then have "system_inv vals ?s'"
    unfolding system_inv_def using c' v' d' sub lin'
    by (intro exI [of _ ps'] exI [of _ fs']) (simp del: set_append map_append)
  moreover have "step Consume s = Some (Inr ?s')" using st by simp
  ultimately show ?thesis by blast
qed

lemma distinct_concat_nth_disjoint:
  "distinct (concat vals) \<Longrightarrow> i < length vals \<Longrightarrow> j < length vals \<Longrightarrow> i \<noteq> j \<Longrightarrow>
     set (vals ! i) \<inter> set (vals ! j) = {}"
proof (induction vals arbitrary: i j)
  case Nil
  then show ?case by simp
next
  case (Cons vs vals)
  show ?case
  proof (cases i)
    case 0
    then obtain j' where "j = Suc j'" "j' < length vals" using Cons.prems by (cases j) auto
    then have "vals ! j' \<in> set vals" by simp
    then show ?thesis using Cons.prems(1) 0 \<open>j = Suc j'\<close> by auto
  next
    case (Suc i')
    show ?thesis
    proof (cases j)
      case 0
      have "vals ! i' \<in> set vals" using Suc Cons.prems by simp
      then show ?thesis using Cons.prems(1) 0 Suc by auto
    next
      case (Suc j')
      then show ?thesis using Cons \<open>i = Suc i'\<close> by auto
    qed
  qed
qed

lemma step_produce_inv:
  assumes dist: "distinct (concat vals)" and inv: "system_inv vals s"
    and st: "step (Produce i a sp) s = Some r"
  shows "\<exists>s'. r = Inr s' \<and> system_inv vals s'"
proof -
  from inv obtain ps fs where
    c: "chain (entries (queue s)) (mPush (queue s)) ps"
    and v: "consumer_view (consumer s) (entries (queue s)) (mPop (queue s)) fs"
    and d: "distinct (map fst (fs @ ps))"
    and sub: "set (out s @ map snd fs @ rev (map snd ps)) \<subseteq> set (concat vals)"
    and pr: "producers_inv vals (entries (queue s)) (out s @ map snd fs @ rev (map snd ps))
          (set (map fst (fs @ ps))) (producers s)"
    unfolding system_inv_def by blast
  let ?h = "entries (queue s)" and ?q = "queue s" and ?p = "producers s ! i"
  let ?L = "out s @ map snd fs @ rev (map snd ps)"
  let ?own = "set (map fst (fs @ ps))"
  from st have i: "i < length vals"
    using pr by (auto simp: producers_inv_def split: if_splits)
  then have il: "i < length (producers s)" using pr by (simp add: producers_inv_def)
  from st il have pst: "producer_step a sp ?p ?q \<noteq> None"
    by (auto split: option.splits)
  from pr i obtain hv where hold: "producer_holds ?h ?p hv"
    and eq: "vals ! i = filter (\<lambda>v. v \<in> set (vals ! i)) ?L @ hv @ todo ?p"
    unfolding producers_inv_def by blast
  have own_i: "in_flight ?p \<inter> ?own = {}" using pr i by (simp add: producers_inv_def)
  have sep_i: "\<forall>j < length vals. j \<noteq> i \<longrightarrow> in_flight ?p \<inter> in_flight (producers s ! j) = {}"
    using pr i by (auto simp: producers_inv_def)
  have own_live: "?h b \<noteq> None" if "b \<in> ?own" for b
  proof -
    from that consider "b \<in> set (map fst fs)" | "b \<in> set (map fst ps)" by auto
    then show ?thesis
    proof cases
      case 1
      with v show ?thesis by (rule consumer_view_live)
    next
      case 2
      with c show ?thesis by (rule chain_live)
    qed
  qed
  have fl_live: "?h b \<noteq> None" if "j < length vals" "b \<in> in_flight (producers s ! j)" for j b
  proof -
    from pr that(1) obtain hv' where "producer_holds ?h (producers s ! j) hv'"
      unfolding producers_inv_def by blast
    then show ?thesis using that(2) by (rule producer_holds_live)
  qed
  have others_same: "\<forall>j < length vals. j \<noteq> i \<longrightarrow>
        in_flight (producers s ! j) \<inter> ?own = {} \<and>
        (\<forall>hv. producer_holds ?h (producers s ! j) hv \<longrightarrow> producer_holds ?h (producers s ! j) hv) \<and>
        filter (\<lambda>v. v \<in> set (vals ! j)) ?L = filter (\<lambda>v. v \<in> set (vals ! j)) ?L"
    using pr by (simp add: producers_inv_def)
  show ?thesis
  proof (cases "ppc ?p")
    case PIdle
    with pst obtain x vs where td: "todo ?p = x # vs" and fresh: "?h a = None"
      by (auto simp: producer_step_def split: list.splits if_splits)
    let ?h' = "?h(a \<mapsto> \<lparr>mValue = x, mNext = None\<rparr>)"
    let ?p' = "\<lparr>todo = vs, ppc = PLoad a\<rparr>"
    let ?s' = "s\<lparr>queue := ?q\<lparr>entries := ?h'\<rparr>, producers := (producers s)[i := ?p']\<rparr>"
    have r: "r = Inr ?s'"
      using st il PIdle td fresh by (simp add: producer_step_def)
    have na: "a \<notin> ?own" using own_live fresh by blast
    have hv: "hv = []" using hold PIdle by (simp add: producer_holds_def)
    have c': "chain ?h' (mPush ?q) ps" using c na by (simp add: chain_update_outside)
    have v': "consumer_view (consumer s) ?h' (mPop ?q) fs"
    proof (rule consumer_view_cong [OF v])
      show "\<forall>y \<in> set fs. ?h' (fst y) = ?h (fst y)" using na by force
    qed
    have "producers_inv vals ?h' ?L ?own ((producers s)[i := ?p'])"
    proof (rule producers_inv_update [OF pr i])
      show "in_flight ?p' \<inter> ?own = {}" using na by (simp add: in_flight_def)
      have "in_flight ?p' = {a}" by (simp add: in_flight_def)
      then show "\<forall>j<length vals. j \<noteq> i \<longrightarrow> in_flight ?p' \<inter> in_flight (producers s ! j) = {}"
        using fl_live fresh by fastforce
      show "\<exists>hv. producer_holds ?h' ?p' hv \<and>
          vals ! i = filter (\<lambda>v. v \<in> set (vals ! i)) ?L @ hv @ todo ?p'"
        using eq hv td by (intro exI [of _ "[x]"]) (simp add: producer_holds_def)
      show "\<forall>j<length vals. j \<noteq> i \<longrightarrow>
          in_flight (producers s ! j) \<inter> ?own = {} \<and>
          (\<forall>hv. producer_holds ?h (producers s ! j) hv \<longrightarrow> producer_holds ?h' (producers s ! j) hv) \<and>
          filter (\<lambda>v. v \<in> set (vals ! j)) ?L = filter (\<lambda>v. v \<in> set (vals ! j)) ?L"
      proof (intro allI impI conjI)
        fix j hv' assume j: "j < length vals" "j \<noteq> i" and h: "producer_holds ?h (producers s ! j) hv'"
        have "a \<notin> in_flight (producers s ! j)" using fl_live [OF j(1), of a] fresh by blast
        then have "\<forall>b \<in> in_flight (producers s ! j). ?h' b = ?h b" by auto
        with h show "producer_holds ?h' (producers s ! j) hv'"
          by (rule producer_holds_cong)
      qed (use pr in \<open>simp_all add: producers_inv_def\<close>)
    qed
    then have "system_inv vals ?s'"
      unfolding system_inv_def using c' v' d sub
      by (intro exI [of _ ps] exI [of _ fs]) (simp del: set_append map_append fun_upd_apply)
    then show ?thesis using r by blast
  next
    case (PLoad entry)
    let ?p' = "?p\<lparr>ppc := PLink entry (mPush ?q)\<rparr>"
    let ?s' = "s\<lparr>queue := ?q, producers := (producers s)[i := ?p']\<rparr>"
    have r: "r = Inr ?s'" using st il PLoad by (simp add: producer_step_def)
    have "producers_inv vals ?h ?L ?own ((producers s)[i := ?p'])"
    proof (rule producers_inv_update [OF pr i _ _ _ others_same])
      show "in_flight ?p' \<inter> ?own = {}" using own_i PLoad by (simp add: in_flight_def)
      show "\<forall>j<length vals. j \<noteq> i \<longrightarrow> in_flight ?p' \<inter> in_flight (producers s ! j) = {}"
        using sep_i PLoad by (simp add: in_flight_def)
      show "\<exists>hv. producer_holds ?h ?p' hv \<and>
          vals ! i = filter (\<lambda>v. v \<in> set (vals ! i)) ?L @ hv @ todo ?p'"
        using eq hold PLoad by (intro exI [of _ hv]) (simp add: producer_holds_def)
    qed
    then have "system_inv vals ?s'"
      unfolding system_inv_def using c v d sub
      by (intro exI [of _ ps] exI [of _ fs]) (simp del: set_append map_append)
    then show ?thesis using r by blast
  next
    case (PLink entry prev)
    from hold PLink obtain e where e: "?h entry = Some e" and hv: "hv = [mValue e]"
      by (auto simp: producer_holds_def split: option.splits)
    let ?h' = "?h(entry \<mapsto> e\<lparr>mNext := prev\<rparr>)"
    let ?p' = "?p\<lparr>ppc := PCas entry prev\<rparr>"
    let ?s' = "s\<lparr>queue := ?q\<lparr>entries := ?h'\<rparr>, producers := (producers s)[i := ?p']\<rparr>"
    have r: "r = Inr ?s'" using st il PLink e by (simp add: producer_step_def)
    have na: "entry \<notin> ?own" using own_i PLink by (simp add: in_flight_def)
    have c': "chain ?h' (mPush ?q) ps" using c na by (simp add: chain_update_outside)
    have v': "consumer_view (consumer s) ?h' (mPop ?q) fs"
    proof (rule consumer_view_cong [OF v])
      show "\<forall>y \<in> set fs. ?h' (fst y) = ?h (fst y)" using na by force
    qed
    have "producers_inv vals ?h' ?L ?own ((producers s)[i := ?p'])"
    proof (rule producers_inv_update [OF pr i])
      show "in_flight ?p' \<inter> ?own = {}" using na by (simp add: in_flight_def)
      show "\<forall>j<length vals. j \<noteq> i \<longrightarrow> in_flight ?p' \<inter> in_flight (producers s ! j) = {}"
        using sep_i PLink by (simp add: in_flight_def)
      show "\<exists>hv. producer_holds ?h' ?p' hv \<and>
          vals ! i = filter (\<lambda>v. v \<in> set (vals ! i)) ?L @ hv @ todo ?p'"
        using eq hv by (intro exI [of _ hv]) (simp add: producer_holds_def)
      show "\<forall>j<length vals. j \<noteq> i \<longrightarrow>
          in_flight (producers s ! j) \<inter> ?own = {} \<and>
          (\<forall>hv. producer_holds ?h (producers s ! j) hv \<longrightarrow> producer_holds ?h' (producers s ! j) hv) \<and>
          filter (\<lambda>v. v \<in> set (vals ! j)) ?L = filter (\<lambda>v. v \<in> set (vals ! j)) ?L"
      proof (intro allI impI conjI)
        fix j hv' assume j: "j < length vals" "j \<noteq> i" and h: "producer_holds ?h (producers s ! j) hv'"
        have "entry \<notin> in_flight (producers s ! j)" using sep_i j PLink by (auto simp: in_flight_def)
        then have "\<forall>b \<in> in_flight (producers s ! j). ?h' b = ?h b" by auto
        with h show "producer_holds ?h' (producers s ! j) hv'"
          by (rule producer_holds_cong)
      qed (use pr in \<open>simp_all add: producers_inv_def\<close>)
    qed
    then have "system_inv vals ?s'"
      unfolding system_inv_def using c' v' d sub
      by (intro exI [of _ ps] exI [of _ fs]) (simp del: set_append map_append fun_upd_apply)
    then show ?thesis using r by blast
  next
    case (PCas entry prev)
    from hold PCas obtain e where e: "?h entry = Some e" and hv: "hv = [mValue e]"
      and nx: "mNext e = prev"
      by (auto simp: producer_holds_def split: option.splits)
    show ?thesis
    proof (cases "mPush ?q = prev \<and> \<not> sp")
      case False
      let ?p' = "?p\<lparr>ppc := PLink entry (mPush ?q)\<rparr>"
      let ?s' = "s\<lparr>queue := ?q, producers := (producers s)[i := ?p']\<rparr>"
      have r: "r = Inr ?s'"
        using st il PCas False by (auto simp: producer_step_def compare_exchange_weak_def)
      have "producers_inv vals ?h ?L ?own ((producers s)[i := ?p'])"
      proof (rule producers_inv_update [OF pr i _ _ _ others_same])
        show "in_flight ?p' \<inter> ?own = {}" using own_i PCas by (simp add: in_flight_def)
        show "\<forall>j<length vals. j \<noteq> i \<longrightarrow> in_flight ?p' \<inter> in_flight (producers s ! j) = {}"
          using sep_i PCas by (simp add: in_flight_def)
        show "\<exists>hv. producer_holds ?h ?p' hv \<and>
            vals ! i = filter (\<lambda>v. v \<in> set (vals ! i)) ?L @ hv @ todo ?p'"
          using eq hv e by (intro exI [of _ hv]) (simp add: producer_holds_def)
      qed
      then have "system_inv vals ?s'"
        unfolding system_inv_def using c v d sub
        by (intro exI [of _ ps] exI [of _ fs]) (simp del: set_append map_append)
      then show ?thesis using r by blast
    next
      case True
      let ?x = "mValue e"
      let ?p' = "?p\<lparr>ppc := PIdle\<rparr>"
      let ?q' = "?q\<lparr>mPush := Some entry\<rparr>"
      let ?s' = "s\<lparr>queue := ?q', producers := (producers s)[i := ?p']\<rparr>"
      let ?ps' = "(entry, ?x) # ps"
      let ?L' = "out s @ map snd fs @ rev (map snd ?ps')"
      have r: "r = Inr ?s'"
        using st il PCas True by (auto simp: producer_step_def compare_exchange_weak_def)
      have na: "entry \<notin> ?own" using own_i PCas by (simp add: in_flight_def)
      have xi: "?x \<in> set (vals ! i)" using eq hv by (metis in_set_conv_decomp append_Cons append_Nil)
      have L': "?L' = ?L @ [?x]" by simp
      have c': "chain (entries ?q') (mPush ?q') ?ps'" using c e nx True by simp
      have v': "consumer_view (consumer s) (entries ?q') (mPop ?q') fs" using v by simp
      have d': "distinct (map fst (fs @ ?ps'))" using d na by auto
      have "?x \<in> set (concat vals)" using xi i by (auto intro!: bexI [of _ "vals ! i"])
      then have sub': "set ?L' \<subseteq> set (concat vals)" using sub by auto
      have "producers_inv vals ?h ?L' (set (map fst (fs @ ?ps'))) ((producers s)[i := ?p'])"
      proof (rule producers_inv_update [OF pr i])
        show "in_flight ?p' \<inter> set (map fst (fs @ ?ps')) = {}" by (simp add: in_flight_def)
        show "\<forall>j<length vals. j \<noteq> i \<longrightarrow> in_flight ?p' \<inter> in_flight (producers s ! j) = {}"
          by (simp add: in_flight_def)
        show "\<exists>hv. producer_holds ?h ?p' hv \<and>
            vals ! i = filter (\<lambda>v. v \<in> set (vals ! i)) ?L' @ hv @ todo ?p'"
          using eq hv xi unfolding L' by (intro exI [of _ "[]"]) (simp add: producer_holds_def)
        show "\<forall>j<length vals. j \<noteq> i \<longrightarrow>
            in_flight (producers s ! j) \<inter> set (map fst (fs @ ?ps')) = {} \<and>
            (\<forall>hv. producer_holds ?h (producers s ! j) hv \<longrightarrow> producer_holds ?h (producers s ! j) hv) \<and>
            filter (\<lambda>v. v \<in> set (vals ! j)) ?L' = filter (\<lambda>v. v \<in> set (vals ! j)) ?L"
        proof (intro allI impI conjI)
          fix j assume j: "j < length vals" "j \<noteq> i"
          have "entry \<notin> in_flight (producers s ! j)" using sep_i j PCas by (auto simp: in_flight_def)
          moreover have "in_flight (producers s ! j) \<inter> ?own = {}"
            using pr j by (simp add: producers_inv_def)
          ultimately show "in_flight (producers s ! j) \<inter> set (map fst (fs @ ?ps')) = {}" by auto
          have "?x \<notin> set (vals ! j)"
            using distinct_concat_nth_disjoint [OF dist i j(1)] j(2) xi by auto
          then show "filter (\<lambda>v. v \<in> set (vals ! j)) ?L' = filter (\<lambda>v. v \<in> set (vals ! j)) ?L"
            unfolding L' by simp
        qed
      qed
      then have "system_inv vals ?s'"
        unfolding system_inv_def using c' v' d' sub'
        by (intro exI [of _ ?ps'] exI [of _ fs]) (simp del: set_append map_append chain.simps)
      then show ?thesis using r by blast
    qed
  qed
qed

lemma start_inv: "system_inv vals (start h vals)"
proof -
  have "producers_inv vals h [] {} (map (\<lambda>vs. \<lparr>todo = vs, ppc = PIdle\<rparr>) vals)"
    by (simp add: producers_inv_def in_flight_def producer_holds_def)
  then show ?thesis
    unfolding system_inv_def start_def fresh_queue_def
    by (intro exI [of _ "[]"]) (simp add: consumer_view_def)
qed

lemma step_inv:
  assumes "distinct (concat vals)" and "system_inv vals s" and "step ev s = Some r"
  shows "\<exists>s'. r = Inr s' \<and> system_inv vals s'"
proof (cases ev)
  case (Produce i a sp)
  with assms(3) have "step (Produce i a sp) s = Some r" by simp
  with assms(1,2) show ?thesis by (rule step_produce_inv)
next
  case Consume
  from step_consume_inv [OF assms(2)] obtain s' where "step Consume s = Some (Inr s')"
    "system_inv vals s'" by blast
  then show ?thesis using assms(3) Consume by (intro exI [of _ s']) simp
qed

lemma exec_inv:
  assumes "distinct (concat vals)"
  shows "system_inv vals s \<Longrightarrow> exec sch s = Some r \<Longrightarrow> \<exists>s'. r = Inr s' \<and> system_inv vals s'"
proof (induction sch arbitrary: s)
  case Nil
  then show ?case by auto
next
  case (Cons ev sch)
  from Cons.prems(2) obtain r1 where r1: "step ev s = Some r1"
    by (auto split: option.splits)
  from step_inv [OF assms Cons.prems(1) r1] obtain s1 where s1: "r1 = Inr s1" "system_inv vals s1"
    by blast
  then have "exec sch s1 = Some r" using Cons.prems(2) r1 by simp
  with s1(2) show ?case by (rule Cons.IH)
qed

lemma prefix_shuffle_bound:
  assumes "distinct (concat vals)" and "set l \<subseteq> set (concat vals)"
    and "\<forall>vs \<in> set vals. prefix (filter (\<lambda>v. v \<in> set vs) l) vs"
  shows "mset l \<subseteq># mset (concat vals)"
  using assms
proof (induction vals arbitrary: l)
  case Nil
  then show ?case by simp
next
  case (Cons vs vals)
  let ?l1 = "filter (\<lambda>v. v \<in> set vs) l" and ?l2 = "filter (\<lambda>v. v \<notin> set vs) l"
  have split: "mset l = mset ?l1 + mset ?l2"
    unfolding mset_filter by (rule multiset_partition)
  from Cons.prems(3) have "prefix ?l1 vs" by simp
  then obtain zs where "vs = ?l1 @ zs" by (auto simp: prefix_def)
  then have "mset vs = mset ?l1 + mset zs" by (metis mset_append)
  then have m1: "mset ?l1 \<subseteq># mset vs" by simp
  have "distinct (concat vals)" using Cons.prems(1) by simp
  moreover have "set ?l2 \<subseteq> set (concat vals)" using Cons.prems(2) by auto
  moreover have "\<forall>ws \<in> set vals. prefix (filter (\<lambda>v. v \<in> set ws) ?l2) ws"
  proof
    fix ws assume ws: "ws \<in> set vals"
    then have "set ws \<inter> set vs = {}" using Cons.prems(1) by auto
    then have "filter (\<lambda>v. v \<in> set ws) ?l2 = filter (\<lambda>v. v \<in> set ws) l"
      by (auto intro: filter_cong)
    then show "prefix (filter (\<lambda>v. v \<in> set ws) ?l2) ws" using Cons.prems(3) ws by simp
  qed
  ultimately have "mset ?l2 \<subseteq># mset (concat vals)" by (rule Cons.IH)
  with m1 have "mset ?l1 + mset ?l2 \<subseteq># mset vs + mset (concat vals)"
    by (rule subset_mset.add_mono)
  then show ?case by (simp only: split concat.simps mset_append)
qed

lemma length_class_in_concat:
  "vs \<in> set vals \<Longrightarrow> length vs \<le> length (filter (\<lambda>v. v \<in> set vs) (concat vals))"
proof (induction vals)
  case Nil
  then show ?case by simp
next
  case (Cons ws vals)
  show ?case
  proof (cases "vs = ws")
    case True
    have "filter (\<lambda>v. v \<in> set ws) ws = ws" by simp
    then show ?thesis using True by simp
  next
    case False
    then show ?thesis using Cons by auto
  qed
qed

lemma system_inv_out:
  assumes dist: "distinct (concat vals)" and inv: "system_inv vals s"
  shows "mset (out s) \<subseteq># mset (concat vals)"
    and "\<forall>i < length vals. prefix (filter (\<lambda>v. v \<in> set (vals ! i)) (out s)) (vals ! i)"
    and "length (out s) = length (concat vals) \<Longrightarrow>
           mset (out s) = mset (concat vals) \<and>
           (\<forall>i < length vals. filter (\<lambda>v. v \<in> set (vals ! i)) (out s) = vals ! i)"
proof -
  from inv obtain ps fs where
    sub: "set (out s @ map snd fs @ rev (map snd ps)) \<subseteq> set (concat vals)"
    and pr: "producers_inv vals (entries (queue s)) (out s @ map snd fs @ rev (map snd ps))
          (set (map fst (fs @ ps))) (producers s)"
    unfolding system_inv_def by blast
  let ?rest = "map snd fs @ rev (map snd ps)"
  let ?l = "out s @ ?rest"
  have pre: "prefix (filter (\<lambda>v. v \<in> set (vals ! i)) ?l) (vals ! i)" if "i < length vals" for i
    using pr that unfolding producers_inv_def prefix_def by blast
  have "\<forall>vs \<in> set vals. prefix (filter (\<lambda>v. v \<in> set vs) ?l) vs"
    using pre by (auto simp: in_set_conv_nth)
  with dist sub have "mset ?l \<subseteq># mset (concat vals)" by (rule prefix_shuffle_bound)
  moreover have "mset (out s) \<subseteq># mset ?l" by simp
  ultimately show b: "mset (out s) \<subseteq># mset (concat vals)" by (rule subset_mset.order_trans [rotated])
  show o: "\<forall>i < length vals. prefix (filter (\<lambda>v. v \<in> set (vals ! i)) (out s)) (vals ! i)"
  proof (intro allI impI)
    fix i assume "i < length vals"
    then have "prefix (filter (\<lambda>v. v \<in> set (vals ! i)) ?l) (vals ! i)" by (rule pre)
    then show "prefix (filter (\<lambda>v. v \<in> set (vals ! i)) (out s)) (vals ! i)"
      by (auto simp: prefix_def)
  qed
  assume len: "length (out s) = length (concat vals)"
  then have "size (mset (concat vals)) = size (mset (out s))" by simp
  with b have eq: "mset (out s) = mset (concat vals)"
    by (metis mset_subset_size subset_mset.le_less less_irrefl)
  have "filter (\<lambda>v. v \<in> set (vals ! i)) (out s) = vals ! i" if i: "i < length vals" for i
  proof -
    let ?P = "\<lambda>v. v \<in> set (vals ! i)"
    have "mset (filter ?P (out s)) = mset (filter ?P (concat vals))"
      using eq by (simp only: mset_filter)
    then have "length (filter ?P (out s)) = length (filter ?P (concat vals))"
      by (metis size_mset)
    moreover have "length (vals ! i) \<le> length (filter ?P (concat vals))"
      using i by (intro length_class_in_concat) simp
    moreover from o i obtain zs where zs: "vals ! i = filter ?P (out s) @ zs"
      by (auto simp: prefix_def)
    then have "length (vals ! i) = length (filter ?P (out s)) + length zs"
      by (metis length_append)
    ultimately have "zs = []" by simp
    then show ?thesis using zs by simp
  qed
  with eq show "mset (out s) = mset (concat vals) \<and>
           (\<forall>i < length vals. filter (\<lambda>v. v \<in> set (vals ! i)) (out s) = vals ! i)" by blast
qed

lemma classes_length_bound:
  assumes "distinct (concat vals)" and "\<forall>vs \<in> set vals. filter (\<lambda>v. v \<in> set vs) l = vs"
  shows "length (concat vals) \<le> length l"
  using assms
proof (induction vals arbitrary: l)
  case Nil
  then show ?case by simp
next
  case (Cons vs vals)
  let ?l2 = "filter (\<lambda>v. v \<notin> set vs) l"
  have "distinct (concat vals)" using Cons.prems(1) by simp
  moreover have "\<forall>ws \<in> set vals. filter (\<lambda>v. v \<in> set ws) ?l2 = ws"
  proof
    fix ws assume ws: "ws \<in> set vals"
    then have "set ws \<inter> set vs = {}" using Cons.prems(1) by auto
    then have "filter (\<lambda>v. v \<in> set ws) ?l2 = filter (\<lambda>v. v \<in> set ws) l"
      by (auto intro: filter_cong)
    then show "filter (\<lambda>v. v \<in> set ws) ?l2 = ws" using Cons.prems(2) ws by simp
  qed
  ultimately have "length (concat vals) \<le> length ?l2" by (rule Cons.IH)
  moreover have "length (filter (\<lambda>v. v \<in> set vs) l) = length vs" using Cons.prems(2) by simp
  moreover have "length (filter (\<lambda>v. v \<in> set vs) l) + length ?l2 = length l"
    by (rule sum_length_filter_compl)
  ultimately show ?case by simp
qed

lemma system_inv_quiescent:
  assumes dist: "distinct (concat vals)" and inv: "system_inv vals s"
    and fin: "\<forall>p \<in> set (producers s). ppc p = PIdle \<and> todo p = []"
    and idle: "consumer s = CIdle"
    and nul: "mPush (queue s) = None" "mPop (queue s) = None"
  shows "mset (out s) = mset (concat vals) \<and>
         (\<forall>i < length vals. filter (\<lambda>v. v \<in> set (vals ! i)) (out s) = vals ! i)"
proof -
  from inv obtain ps fs where
    c: "chain (entries (queue s)) (mPush (queue s)) ps"
    and v: "consumer_view (consumer s) (entries (queue s)) (mPop (queue s)) fs"
    and pr: "producers_inv vals (entries (queue s)) (out s @ map snd fs @ rev (map snd ps))
          (set (map fst (fs @ ps))) (producers s)"
    unfolding system_inv_def by blast
  from c nul have ps: "ps = []" by (simp add: chain_None)
  from v idle nul have fs: "fs = []" by (simp add: consumer_view_def chain_None)
  have full: "filter (\<lambda>v. v \<in> set (vals ! i)) (out s) = vals ! i" if i: "i < length vals" for i
  proof -
    from pr i obtain hv where h: "producer_holds (entries (queue s)) (producers s ! i) hv"
      and eq: "vals ! i = filter (\<lambda>v. v \<in> set (vals ! i)) (out s @ map snd fs @ rev (map snd ps)) @
          hv @ todo (producers s ! i)"
      and len: "length (producers s) = length vals"
      unfolding producers_inv_def by blast
    from i len have "producers s ! i \<in> set (producers s)" by simp
    with fin have d: "ppc (producers s ! i) = PIdle" "todo (producers s ! i) = []" by blast+
    from h d(1) have "hv = []" by (simp add: producer_holds_def)
    with eq d(2) ps fs show ?thesis by simp
  qed
  then have "\<forall>vs \<in> set vals. filter (\<lambda>v. v \<in> set vs) (out s) = vs"
    by (auto simp: in_set_conv_nth)
  with dist have "length (concat vals) \<le> length (out s)" by (rule classes_length_bound)
  moreover have sub: "mset (out s) \<subseteq># mset (concat vals)" using dist inv by (rule system_inv_out(1))
  then have "length (out s) \<le> length (concat vals)" by (metis size_mset size_mset_mono)
  ultimately have "size (mset (out s)) = size (mset (concat vals))" by simp
  with sub have "mset (out s) = mset (concat vals)"
    by (metis mset_subset_size subset_mset.le_less less_irrefl)
  with full show ?thesis by blast
qed

section \<open>The consumer's events and pop\<close>














section \<open>The claims about the queue\<close>

text \<open>
  C1. Every single-threaded sequence of calls, run from a state that satisfies the
  representation invariant with an allocator that returns addresses that are not live,
  returns without fault and gives exactly the replies of the naive FIFO queue started on
  the contents "pop list followed by the reversed push list"; the invariant and the
  abstraction are re-established at the end. In particular, on a fresh queue, three
  pushes followed by three pops return the three values in push order, and push, push,
  pop, push, pop, pop returns the first, second and third value in this order.
\<close>

theorem single_thread_fifo:
  "(queue_inv (q :: 'a LocklessQueue) ps qs \<longrightarrow> allocator_ok cs q \<longrightarrow>
      (\<exists>q' ps' qs'. run cs q = Some (Inr (fst (fifo_run cs (contents ps qs)), q')) \<and>
         queue_inv q' ps' qs' \<and> contents ps' qs' = snd (fifo_run cs (contents ps qs)))) \<and>
   (allocator_ok [Push (v1 :: 'a) a1 n1, Push v2 a2 n2, Push v3 a3 n3, Pop, Pop, Pop] (fresh_queue h) \<longrightarrow>
      (\<exists>q'. run [Push v1 a1 n1, Push v2 a2 n2, Push v3 a3 n3, Pop, Pop, Pop] (fresh_queue h) =
         Some (Inr ([Pushed, Pushed, Pushed, Popped (Some v1), Popped (Some v2), Popped (Some v3)], q')))) \<and>
   (allocator_ok [Push va b1 m1, Push vb b2 m2, Pop, Push vc b3 m3, Pop, Pop] (fresh_queue h) \<longrightarrow>
      (\<exists>q'. run [Push va b1 m1, Push vb b2 m2, Pop, Push vc b3 m3, Pop, Pop] (fresh_queue h) =
         Some (Inr ([Pushed, Pushed, Popped (Some va), Pushed, Popped (Some vb), Popped (Some vc)], q'))))"
proof (intro conjI impI)
  assume "queue_inv q ps qs" and "allocator_ok cs q"
  then show "\<exists>q' ps' qs'. run cs q = Some (Inr (fst (fifo_run cs (contents ps qs)), q')) \<and>
         queue_inv q' ps' qs' \<and> contents ps' qs' = snd (fifo_run cs (contents ps qs))"
    by (rule run_refines)
next
  let ?cs = "[Push v1 a1 n1, Push v2 a2 n2, Push v3 a3 n3, Pop, Pop, Pop]"
  assume "allocator_ok ?cs (fresh_queue h)"
  from run_refines [OF queue_inv_fresh this] obtain q' where
    "run ?cs (fresh_queue h) = Some (Inr (fst (fifo_run ?cs (contents [] [])), q'))"
    by blast
  moreover have "fst (fifo_run ?cs (contents [] [])) =
      [Pushed, Pushed, Pushed, Popped (Some v1), Popped (Some v2), Popped (Some v3)]"
    by (simp add: contents_def)
  ultimately show "\<exists>q'. run ?cs (fresh_queue h) =
      Some (Inr ([Pushed, Pushed, Pushed, Popped (Some v1), Popped (Some v2), Popped (Some v3)], q'))"
    by auto
next
  let ?cs = "[Push va b1 m1, Push vb b2 m2, Pop, Push vc b3 m3, Pop, Pop]"
  assume "allocator_ok ?cs (fresh_queue h)"
  from run_refines [OF queue_inv_fresh this] obtain q' where
    "run ?cs (fresh_queue h) = Some (Inr (fst (fifo_run ?cs (contents [] [])), q'))"
    by blast
  moreover have "fst (fifo_run ?cs (contents [] [])) =
      [Pushed, Pushed, Popped (Some va), Pushed, Popped (Some vb), Popped (Some vc)]"
    by (simp add: contents_def)
  ultimately show "\<exists>q'. run ?cs (fresh_queue h) =
      Some (Inr ([Pushed, Pushed, Popped (Some va), Pushed, Popped (Some vb), Popped (Some vc)], q'))"
    by auto
qed

theorem single_thread_fifo_witness:
  "queue_inv (fresh_queue Map.empty :: nat LocklessQueue) [] [] \<and>
   allocator_ok [Push (1::nat) 0 0, Push 2 1 1, Pop, Push 3 0 2, Pop, Pop] (fresh_queue Map.empty) \<and>
   allocator_ok [Push (1::nat) 0 0, Push 2 1 1, Push 3 2 0, Pop, Pop, Pop] (fresh_queue Map.empty) \<and>
   (\<exists>q'. run [Push (1::nat) 0 0, Push 2 1 1, Push 3 2 0, Pop, Pop, Pop] (fresh_queue Map.empty) =
         Some (Inr ([Pushed, Pushed, Pushed, Popped (Some 1), Popped (Some 2), Popped (Some 3)], q'))) \<and>
   (\<exists>q'. run [Push (1::nat) 0 0, Push 2 1 1, Pop, Push 3 0 2, Pop, Pop] (fresh_queue Map.empty) =
         Some (Inr ([Pushed, Pushed, Popped (Some 1), Pushed, Popped (Some 2), Popped (Some 3)], q'))) \<and>
   (\<exists>q' ps' qs'. run [Push (1::nat) 0 0, Push 2 1 1, Pop, Push 3 0 2, Pop, Pop] (fresh_queue Map.empty) =
         Some (Inr (fst (fifo_run [Push (1::nat) 0 0, Push 2 1 1, Pop, Push 3 0 2, Pop, Pop] (contents [] [])), q')) \<and>
         queue_inv q' ps' qs' \<and>
         contents ps' qs' = snd (fifo_run [Push (1::nat) 0 0, Push 2 1 1, Pop, Push 3 0 2, Pop, Pop] (contents [] [])))"
proof -
  have h0: "queue_inv (fresh_queue Map.empty :: nat LocklessQueue) [] []"
    by (simp add: queue_inv_def fresh_queue_def)
  have h1: "allocator_ok [Push (1::nat) 0 0, Push 2 1 1, Pop, Push 3 0 2, Pop, Pop] (fresh_queue Map.empty)"
    by code_simp
  have h2: "allocator_ok [Push (1::nat) 0 0, Push 2 1 1, Push 3 2 0, Pop, Pop, Pop] (fresh_queue Map.empty)"
    by code_simp
  note T = single_thread_fifo [of "fresh_queue Map.empty" "[]" "[]"
        "[Push (1::nat) 0 0, Push 2 1 1, Pop, Push 3 0 2, Pop, Pop]"
        1 0 0 2 1 1 3 2 0 Map.empty 1 0 0 2 1 1 3 0 2]
  note g1 = T [THEN conjunct1, rule_format, OF h0 h1]
  note g2 = T [THEN conjunct2, THEN conjunct1, rule_format, OF h2]
  note g3 = T [THEN conjunct2, THEN conjunct2, rule_format, OF h1]
  show ?thesis by (intro conjI h0 h1 h2 g1 g2 g3)
qed



text \<open>
  C3. Producers push the values of their lists \<open>vals ! i\<close>, all values distinct,
  while the consumer calls \<open>pop\<close> again and again. Whatever the schedule (every
  interleaving of the threads' atomic accesses, every choice of the allocator among
  the addresses that are not live, every spurious compare-exchange failure), the
  execution has no fault, no value is returned twice or invented, the values of each
  producer are returned in the order it pushed them, and once as many values are
  returned as were to be pushed, the multiset returned is exactly the multiset pushed
  and the values of each producer are all there, in its order. The same holds in every
  state in which all producers have finished and the consumer, between two calls, finds
  both heads null: nothing is lost on the way.
\<close>

theorem producers_consumer_no_loss_in_order:
  "distinct (concat vals) \<longrightarrow> exec sch (start h vals) = Some r \<longrightarrow>
     (\<exists>s. r = Inr s \<and>
        mset (out s) \<subseteq># mset (concat vals) \<and>
        (\<forall>i < length vals. prefix (filter (\<lambda>v. v \<in> set (vals ! i)) (out s)) (vals ! i)) \<and>
        (length (out s) = length (concat vals) \<longrightarrow>
           mset (out s) = mset (concat vals) \<and>
           (\<forall>i < length vals. filter (\<lambda>v. v \<in> set (vals ! i)) (out s) = vals ! i)) \<and>
        ((\<forall>p \<in> set (producers s). ppc p = PIdle \<and> todo p = []) \<longrightarrow>
         consumer s = CIdle \<longrightarrow> mPush (queue s) = None \<longrightarrow> mPop (queue s) = None \<longrightarrow>
           mset (out s) = mset (concat vals) \<and>
           (\<forall>i < length vals. filter (\<lambda>v. v \<in> set (vals ! i)) (out s) = vals ! i)))"
proof (intro impI)
  assume dist: "distinct (concat vals)" and ex: "exec sch (start h vals) = Some r"
  from exec_inv [OF dist start_inv ex] obtain s where s: "r = Inr s" "system_inv vals s" by blast
  note o = system_inv_out [OF dist s(2)]
  have o3: "length (out s) = length (concat vals) \<longrightarrow>
           mset (out s) = mset (concat vals) \<and>
           (\<forall>i < length vals. filter (\<lambda>v. v \<in> set (vals ! i)) (out s) = vals ! i)"
    using o(3) by blast
  have q: "(\<forall>p \<in> set (producers s). ppc p = PIdle \<and> todo p = []) \<longrightarrow>
         consumer s = CIdle \<longrightarrow> mPush (queue s) = None \<longrightarrow> mPop (queue s) = None \<longrightarrow>
           mset (out s) = mset (concat vals) \<and>
           (\<forall>i < length vals. filter (\<lambda>v. v \<in> set (vals ! i)) (out s) = vals ! i)"
    using system_inv_quiescent [OF dist s(2)] by blast
  show "\<exists>s. r = Inr s \<and>
        mset (out s) \<subseteq># mset (concat vals) \<and>
        (\<forall>i < length vals. prefix (filter (\<lambda>v. v \<in> set (vals ! i)) (out s)) (vals ! i)) \<and>
        (length (out s) = length (concat vals) \<longrightarrow>
           mset (out s) = mset (concat vals) \<and>
           (\<forall>i < length vals. filter (\<lambda>v. v \<in> set (vals ! i)) (out s) = vals ! i)) \<and>
        ((\<forall>p \<in> set (producers s). ppc p = PIdle \<and> todo p = []) \<longrightarrow>
         consumer s = CIdle \<longrightarrow> mPush (queue s) = None \<longrightarrow> mPop (queue s) = None \<longrightarrow>
           mset (out s) = mset (concat vals) \<and>
           (\<forall>i < length vals. filter (\<lambda>v. v \<in> set (vals ! i)) (out s) = vals ! i))"
    by (rule exI [of _ s]) (intro conjI s(1) o(1) o(2) o3 q)
qed

theorem producers_consumer_no_loss_in_order_witness:
  "distinct (concat [[1, 2], [3, 4 :: nat]]) \<and>
   (\<exists>s. exec sample_schedule (start Map.empty [[1, 2], [3, 4 :: nat]]) = Some (Inr s) \<and>
      out s = [3, 1, 4, 2] \<and>
      producers s = [\<lparr>todo = [], ppc = PIdle\<rparr>, \<lparr>todo = [], ppc = PIdle\<rparr>] \<and>
      consumer s = CIdle \<and> mPush (queue s) = None \<and> mPop (queue s) = None \<and>
      length (out s) = length (concat [[1, 2], [3, 4 :: nat]]) \<and>
      mset (out s) = mset (concat [[1, 2], [3, 4 :: nat]]) \<and>
      filter (\<lambda>v. v \<in> set [1, 2]) (out s) = [1, 2] \<and>
      filter (\<lambda>v. v \<in> set [3, 4]) (out s) = [3, 4])"
proof -
  have h1: "distinct (concat [[1, 2], [3, 4 :: nat]])" by simp
  have "case exec sample_schedule (start Map.empty [[1, 2], [3, 4 :: nat]]) of
      Some (Inr s) \<Rightarrow>
        out s = [3, 1, 4, 2] \<and>
        producers s = [\<lparr>todo = [], ppc = PIdle\<rparr>, \<lparr>todo = [], ppc = PIdle\<rparr>] \<and>
        consumer s = CIdle \<and> mPush (queue s) = None \<and> mPop (queue s) = None
    | _ \<Rightarrow> False"
    by code_simp
  then obtain s where h2: "exec sample_schedule (start Map.empty [[1, 2], [3, 4 :: nat]]) = Some (Inr s)"
    and o: "out s = [3, 1, 4, 2]"
    and q: "producers s = [\<lparr>todo = [], ppc = PIdle\<rparr>, \<lparr>todo = [], ppc = PIdle\<rparr>]"
      "consumer s = CIdle" "mPush (queue s) = None" "mPop (queue s) = None"
    by (auto split: option.splits sum.splits)
  have len: "length (out s) = length (concat [[1, 2], [3, 4 :: nat]])" by (simp add: o)
  from producers_consumer_no_loss_in_order [of "[[1, 2], [3, 4 :: nat]]" sample_schedule Map.empty "Inr s",
      rule_format, OF h1 h2]
  obtain s' where s': "Inr s = (Inr s' :: fault + nat system)"
    and full: "length (out s') = length (concat [[1, 2], [3, 4 :: nat]]) \<longrightarrow>
           mset (out s') = mset (concat [[1, 2], [3, 4 :: nat]]) \<and>
           (\<forall>i < length [[1, 2], [3, 4 :: nat]].
              filter (\<lambda>v. v \<in> set ([[1, 2], [3, 4 :: nat]] ! i)) (out s') = [[1, 2], [3, 4]] ! i)"
    by blast
  from s' have "s' = s" by simp
  with full len have m: "mset (out s) = mset (concat [[1, 2], [3, 4 :: nat]])"
    and f: "\<forall>i < length [[1, 2], [3, 4 :: nat]].
              filter (\<lambda>v. v \<in> set ([[1, 2], [3, 4 :: nat]] ! i)) (out s) = [[1, 2], [3, 4]] ! i"
    by blast+
  from f [rule_format, of 0] have f0: "filter (\<lambda>v. v \<in> set [1, 2]) (out s) = [1, 2]" by simp
  from f [rule_format, of 1] have f1: "filter (\<lambda>v. v \<in> set [3, 4]) (out s) = [3, 4]" by simp
  show ?thesis using h1 h2 o q len m f0 f1 by blast
qed

text \<open>
  C4. After every call sequence, run from a fresh queue (or from any state that
  satisfies the representation invariant) with an allocator that returns addresses
  that are not live, no entry is reachable from both the push head and the pop head.
  Every reachable state is the end state of such a sequence, so each of \<open>push\<close>,
  \<open>pop\<close> and \<open>isEmpty\<close> preserves the disjointness.
\<close>

theorem lists_disjoint:
  "(queue_inv (q :: 'a LocklessQueue) ps qs \<longrightarrow> allocator_ok cs q \<longrightarrow>
      (\<exists>rs q'. run cs q = Some (Inr (rs, q')) \<and>
         (\<forall>a. \<not> (reaches (entries q') (mPush q') a \<and> reaches (entries q') (mPop q') a)))) \<and>
   (allocator_ok cs (fresh_queue (h :: addr \<Rightarrow> 'a Entry option)) \<longrightarrow>
      (\<exists>rs q'. run cs (fresh_queue h) = Some (Inr (rs, q')) \<and>
         (\<forall>a. \<not> (reaches (entries q') (mPush q') a \<and> reaches (entries q') (mPop q') a))))"
proof -
  have "\<exists>rs q'. run cs q = Some (Inr (rs, q')) \<and>
         (\<forall>a. \<not> (reaches (entries q') (mPush q') a \<and> reaches (entries q') (mPop q') a))"
    if "queue_inv q ps qs" "allocator_ok cs q" for q :: "'a LocklessQueue" and ps qs
  proof -
    from run_refines [OF that] obtain q' ps' qs' where
      "run cs q = Some (Inr (fst (fifo_run cs (contents ps qs)), q'))" "queue_inv q' ps' qs'"
      by blast
    then show ?thesis using queue_inv_disjoint by blast
  qed
  then show ?thesis using queue_inv_fresh by blast
qed

theorem lists_disjoint_witness:
  "queue_inv sample_queue [(4, 40), (3, 30)] [(1, 10), (2, 20)] \<and>
   allocator_ok [Pop, Push 5 1 0, IsEmpty, Pop, Pop] sample_queue \<and>
   allocator_ok [Push (1::nat) 0 0, Push 2 1 1, Pop, Push 3 0 2] (fresh_queue Map.empty) \<and>
   (\<exists>rs q'. run [Pop, Push 5 1 0, IsEmpty, Pop, Pop] sample_queue = Some (Inr (rs, q')) \<and>
      (\<forall>a. \<not> (reaches (entries q') (mPush q') a \<and> reaches (entries q') (mPop q') a))) \<and>
   (\<exists>rs q'. run [Push (1::nat) 0 0, Push 2 1 1, Pop, Push 3 0 2] (fresh_queue Map.empty) =
        Some (Inr (rs, q')) \<and>
      (\<forall>a. \<not> (reaches (entries q') (mPush q') a \<and> reaches (entries q') (mPop q') a)))"
proof -
  have h1: "queue_inv sample_queue [(4, 40), (3, 30)] [(1, 10), (2, 20)]"
    by (simp add: sample_queue_def queue_inv_def)
  have h2: "allocator_ok [Pop, Push 5 1 0, IsEmpty, Pop, Pop] sample_queue"
    by code_simp
  have h3: "allocator_ok [Push (1::nat) 0 0, Push 2 1 1, Pop, Push 3 0 2] (fresh_queue Map.empty)"
    by code_simp
  note T1 = lists_disjoint [of sample_queue "[(4, 40), (3, 30)]" "[(1, 10), (2, 20)]"
      "[Pop, Push 5 1 0, IsEmpty, Pop, Pop]" Map.empty, THEN conjunct1, rule_format, OF h1 h2]
  note T2 = lists_disjoint [of "fresh_queue Map.empty" "[]" "[]"
      "[Push (1::nat) 0 0, Push 2 1 1, Pop, Push 3 0 2]" Map.empty, THEN conjunct2, rule_format, OF h3]
  show ?thesis by (intro conjI h1 h2 h3 T1 T2)
qed

text \<open>
  C5. In every state in which both heads are null, \<open>pop\<close> returns the absent value
  without fault and leaves the state (hence both heads) unchanged; a freshly
  constructed queue reports \<open>isEmpty() == true\<close> and \<open>pop\<close> on it returns absent.
\<close>

theorem pop_on_empty:
  "(mPush (q :: 'a LocklessQueue) = None \<longrightarrow> mPop q = None \<longrightarrow> pop q = Some (Inr (None, q))) \<and>
   isEmpty (fresh_queue (h :: addr \<Rightarrow> 'a Entry option)) = (True, fresh_queue h) \<and>
   pop (fresh_queue h) = Some (Inr (None, fresh_queue h))"
  by (simp add: pop_empty isEmpty_def fresh_queue_def)

theorem pop_on_empty_witness:
  "mPush \<lparr>entries = [5 \<mapsto> \<lparr>mValue = 7::nat, mNext = None\<rparr>], mPush = None, mPop = None\<rparr> = None \<and>
   mPop \<lparr>entries = [5 \<mapsto> \<lparr>mValue = 7::nat, mNext = None\<rparr>], mPush = None, mPop = None\<rparr> = None \<and>
   pop \<lparr>entries = [5 \<mapsto> \<lparr>mValue = 7::nat, mNext = None\<rparr>], mPush = None, mPop = None\<rparr> =
     Some (Inr (None, \<lparr>entries = [5 \<mapsto> \<lparr>mValue = 7::nat, mNext = None\<rparr>], mPush = None, mPop = None\<rparr>))"
  using pop_on_empty [of "\<lparr>entries = [5 \<mapsto> \<lparr>mValue = 7::nat, mNext = None\<rparr>], mPush = None, mPop = None\<rparr>"
      "[5 \<mapsto> \<lparr>mValue = 7::nat, mNext = None\<rparr>]"]
  by (simp del: fun_upd_apply)

text \<open>
  C6. In every state whose push head and pop head each head a chain (a finite,
  acyclic, null-terminated list of live entries), \<open>pop\<close> returns a definite result;
  and when it runs the reversal loop (pop head null, push head \<open>g\<close>), the loop returns
  after a number of iterations that is at most the length of the captured push list.
\<close>

theorem pop_terminates:
  "chain (entries q) (mPush q) ps \<longrightarrow> chain (entries q) (mPop q) qs \<longrightarrow>
     (\<exists>r q'. pop q = Some (Inr (r, q'))) \<and>
     (\<forall>g. mPop q = None \<longrightarrow> mPush q = Some g \<longrightarrow>
        (\<exists>h' p' z k. reverse_loop (entries q) None g 0 = Some (Inr (h', p', z, k)) \<and>
           k \<le> length ps))"
proof (intro impI conjI allI)
  assume cp: "chain (entries q) (mPush q) ps" and cq: "chain (entries q) (mPop q) qs"
  show "\<exists>r q'. pop q = Some (Inr (r, q'))"
  proof (cases qs)
    case (Cons x qs')
    with cq obtain e where "mPop q = Some (fst x)" "entries q (fst x) = Some e"
      by (auto split: option.splits)
    then show ?thesis by (blast dest: pop_from_pop_list)
  next
    case Nil
    with cq have p: "mPop q = None" by simp
    show ?thesis
    proof (cases ps rule: rev_cases)
      case Nil
      with cp have "mPush q = None" by simp
      then show ?thesis using p by (blast dest: pop_empty)
    next
      case (snoc xs z)
      with cp have "chain (entries q) (mPush q) (xs @ [z])" by simp
      from pop_refill [OF p this] show ?thesis by blast
    qed
  qed
next
  fix g
  assume cp: "chain (entries q) (mPush q) ps" and p: "mPop q = None" and g: "mPush q = Some g"
  from cp g obtain xs z where ps: "ps = xs @ [z]" by (cases ps rule: rev_cases) auto
  from pop_refill [OF p cp [unfolded ps]] g obtain h' p' where
    "reverse_loop (entries q) None g 0 = Some (Inr (h', p', fst z, length xs))" by auto
  then show "\<exists>h' p' z k. reverse_loop (entries q) None g 0 = Some (Inr (h', p', z, k)) \<and>
           k \<le> length ps"
    by (simp add: ps)
qed

theorem pop_terminates_witness:
  "chain (entries sample_batch) (mPush sample_batch) [(5, 50), (4, 40), (3, 30)] \<and>
   chain (entries sample_batch) (mPop sample_batch) [] \<and>
   mPop sample_batch = None \<and> mPush sample_batch = Some 5 \<and>
   (\<exists>r q'. pop sample_batch = Some (Inr (r, q'))) \<and>
   (\<exists>h' p' z k. reverse_loop (entries sample_batch) None 5 0 = Some (Inr (h', p', z, k)) \<and>
      k \<le> 3)"
proof -
  have h1: "chain (entries sample_batch) (mPush sample_batch) [(5, 50), (4, 40), (3, 30)]"
    by (simp add: sample_batch_def)
  have h2: "chain (entries sample_batch) (mPop sample_batch) []"
    by (simp add: sample_batch_def)
  have h3: "mPop sample_batch = None" and h4: "mPush sample_batch = Some 5"
    by (simp_all add: sample_batch_def)
  note T = pop_terminates [of sample_batch "[(5, 50), (4, 40), (3, 30)]" "[]", rule_format, OF h1 h2]
  have g1: "\<exists>r q'. pop sample_batch = Some (Inr (r, q'))" using T by blast
  have g2: "\<exists>h' p' z k. reverse_loop (entries sample_batch) None 5 0 = Some (Inr (h', p', z, k)) \<and>
      k \<le> 3"
    using T [THEN conjunct2, rule_format, OF h3 h4] by (simp add: numeral_3_eq_3)
  show ?thesis by (intro conjI h1 h2 h3 h4 g1 g2)
qed

text \<open>
  C7. \<open>isEmpty\<close> returns exactly the conjunction "push head is null and pop head is
  null" (so it returns true only if both are null), and it leaves the state unchanged.
\<close>

theorem isEmpty_conjunction:
  "fst (isEmpty q) = (mPush q = None \<and> mPop q = None) \<and> snd (isEmpty q) = q"
  by (simp add: isEmpty_def)

theorem isEmpty_conjunction_witness:
  "fst (isEmpty sample_queue) = False \<and> snd (isEmpty sample_queue) = sample_queue \<and>
   fst (isEmpty (fresh_queue Map.empty :: nat LocklessQueue)) = True"
  using isEmpty_conjunction [of sample_queue]
    isEmpty_conjunction [of "fresh_queue Map.empty :: nat LocklessQueue"]
  by (simp add: sample_queue_def fresh_queue_def)

text \<open>
  C8. \<open>push\<close> leaves the pop head as it was; it sets the push head to the new entry,
  which holds the pushed value and points to the previous push head; it changes no
  other entry; its effect does not depend on the pop head; and, the new entry's
  address not being live before, the whole pop list is what it was before the push.
\<close>

theorem push_frame:
  "mPop (push a n v q) = mPop q \<and>
   mPush (push a n v q) = Some a \<and>
   entries (push a n v q) a = Some \<lparr>mValue = v, mNext = mPush q\<rparr> \<and>
   (\<forall>b. b \<noteq> a \<longrightarrow> entries (push a n v q) b = entries q b) \<and>
   push a n v (q\<lparr>mPop := p\<rparr>) = (push a n v q)\<lparr>mPop := p\<rparr> \<and>
   (entries q a = None \<longrightarrow> chain (entries q) (mPop q) qs \<longrightarrow>
      chain (entries (push a n v q)) (mPop (push a n v q)) qs)"
proof -
  have "chain (entries (push a n v q)) (mPop (push a n v q)) qs"
    if "entries q a = None" "chain (entries q) (mPop q) qs"
  proof -
    have "a \<notin> set (map fst qs)" using that chain_live by blast
    then show ?thesis using that(2)
      by (simp add: entries_push mPop_push chain_update_outside del: fun_upd_apply)
  qed
  moreover have "push a n v (q\<lparr>mPop := p\<rparr>) = (push a n v q)\<lparr>mPop := p\<rparr>"
    by (simp add: push_eq del: fun_upd_apply)
  ultimately show ?thesis by (simp add: entries_push mPush_push mPop_push)
qed

theorem push_frame_witness:
  "entries sample_queue 7 = None \<and>
   chain (entries sample_queue) (mPop sample_queue) [(1, 10), (2, 20)] \<and>
   chain (entries (push 7 2 70 sample_queue)) (mPop (push 7 2 70 sample_queue)) [(1, 10), (2, 20)] \<and>
   mPop (push 7 2 70 sample_queue) = mPop sample_queue \<and>
   mPush (push 7 2 70 sample_queue) = Some 7 \<and>
   entries (push 7 2 70 sample_queue) 7 = Some \<lparr>mValue = 70, mNext = Some 4\<rparr> \<and>
   entries (push 7 2 70 sample_queue) 1 = entries sample_queue 1"
proof -
  have h1: "entries sample_queue 7 = None" by (simp add: sample_queue_def)
  have h2: "chain (entries sample_queue) (mPop sample_queue) [(1, 10), (2, 20)]"
    by (simp add: sample_queue_def)
  have m: "mPush sample_queue = Some 4" by (simp add: sample_queue_def)
  note T = push_frame [of 7 2 70 sample_queue None "[(1, 10), (2, 20)]"]
  have g1: "chain (entries (push 7 2 70 sample_queue)) (mPop (push 7 2 70 sample_queue)) [(1, 10), (2, 20)]"
    using T h1 h2 by blast
  have g2: "mPop (push 7 2 70 sample_queue) = mPop sample_queue"
    and g3: "mPush (push 7 2 70 sample_queue) = Some 7"
    using T by blast+
  have g4: "entries (push 7 2 70 sample_queue) 7 = Some \<lparr>mValue = 70, mNext = Some 4\<rparr>"
    using T m by simp
  have "\<forall>b. b \<noteq> 7 \<longrightarrow> entries (push 7 2 70 sample_queue) b = entries sample_queue b"
    using T by blast
  then have g5: "entries (push 7 2 70 sample_queue) 1 = entries sample_queue 1" by simp
  show ?thesis by (intro conjI h1 h2 g1 g2 g3 g4 g5)
qed

text \<open>
  C9. From a state in which both heads are null, \<open>push(v)\<close> followed by \<open>pop()\<close>
  returns \<open>v\<close> and leaves both heads null again, so \<open>isEmpty\<close> is true afterwards;
  the pushed entry is deleted, and if its address was not live before, the state is
  exactly the one before the push.
\<close>

theorem push_pop_roundtrip:
  "mPush q = None \<longrightarrow> mPop q = None \<longrightarrow>
     (\<exists>q'. pop (push a n v q) = Some (Inr (Some v, q')) \<and>
        mPush q' = None \<and> mPop q' = None \<and> fst (isEmpty q') \<and>
        entries q' = (entries q)(a := None) \<and>
        (entries q a = None \<longrightarrow> q' = q))"
proof (intro impI)
  assume e: "mPush q = None" "mPop q = None"
  let ?q' = "\<lparr>entries = (entries q)(a := None), mPush = None, mPop = None\<rparr>"
  have "pop (push a n v q) = Some (Inr (Some v, ?q'))"
    using e by (simp add: push_eq pop_def reverse_loop.simps del: fun_upd_apply add: fun_upd_same)
  moreover have "?q' = q" if "entries q a = None"
    using that e by (simp add: fun_upd_idem)
  ultimately show "\<exists>q'. pop (push a n v q) = Some (Inr (Some v, q')) \<and>
        mPush q' = None \<and> mPop q' = None \<and> fst (isEmpty q') \<and>
        entries q' = (entries q)(a := None) \<and>
        (entries q a = None \<longrightarrow> q' = q)"
    by (intro exI [of _ ?q']) (simp add: isEmpty_def del: fun_upd_apply)
qed

theorem push_pop_roundtrip_witness:
  "mPush (fresh_queue Map.empty :: nat LocklessQueue) = None \<and>
   mPop (fresh_queue Map.empty :: nat LocklessQueue) = None \<and>
   entries (fresh_queue Map.empty :: nat LocklessQueue) 0 = None \<and>
   pop (push 0 1 42 (fresh_queue Map.empty :: nat LocklessQueue)) =
     Some (Inr (Some 42, fresh_queue Map.empty)) \<and>
   fst (isEmpty (fresh_queue Map.empty :: nat LocklessQueue))"
proof -
  have h: "mPush (fresh_queue Map.empty :: nat LocklessQueue) = None"
    "mPop (fresh_queue Map.empty :: nat LocklessQueue) = None"
    "entries (fresh_queue Map.empty :: nat LocklessQueue) 0 = None"
    by (simp_all add: fresh_queue_def)
  from push_pop_roundtrip [of "fresh_queue Map.empty :: nat LocklessQueue" 0 1 42, rule_format, OF h(1,2)]
  obtain q' where "pop (push 0 1 42 (fresh_queue Map.empty :: nat LocklessQueue)) = Some (Inr (Some 42, q'))"
    "fst (isEmpty q')" "entries (fresh_queue Map.empty :: nat LocklessQueue) 0 = None \<longrightarrow> q' = fresh_queue Map.empty"
    by auto
  then show ?thesis using h by simp
qed

section \<open>The claim about the test counter\<close>

text \<open>
  C10, as amended. As long as the count does not pass \<open>INT32_MAX\<close>, \<open>TestCounter\<close>
  is an exact counter: constructed with \<open>init\<close> (default 0), \<open>get\<close> returns \<open>init\<close>;
  after \<open>n\<close> calls of \<open>increment\<close> with \<open>init + n \<le> 2147483647\<close>, \<open>get\<close> returns
  \<open>init + n\<close>; and each \<open>increment\<close> of a count below \<open>INT32_MAX\<close> increases it by
  exactly one.
\<close>

theorem counter_exact:
  "sint init + int n \<le> 2147483647 \<longrightarrow>
     get (TestCounter_ctor init) = init \<and>
     get TestCounter_default = 0 \<and>
     (\<exists>c. increments n (TestCounter_ctor init) = Inr c \<and> sint (get c) = sint init + int n) \<and>
     (sint (get d) < 2147483647 \<longrightarrow>
        (\<exists>d'. increment d = Inr d' \<and> sint (get d') = sint (get d) + 1))"
proof (intro impI conjI)
  show "get (TestCounter_ctor init) = init" "get TestCounter_default = 0"
    by (simp_all add: get_def TestCounter_ctor_def TestCounter_default_def)
next
  assume "sint init + int n \<le> 2147483647"
  then have "sint (mCount (TestCounter_ctor init)) + int n \<le> 2147483647"
    by (simp add: TestCounter_ctor_def)
  from increments_exact [OF this]
  show "\<exists>c. increments n (TestCounter_ctor init) = Inr c \<and> sint (get c) = sint init + int n"
    by (simp add: get_def TestCounter_ctor_def)
next
  assume "sint (get d) < 2147483647"
  then show "\<exists>d'. increment d = Inr d' \<and> sint (get d') = sint (get d) + 1"
    by (simp add: increment_def get_def sint_succ)
qed

theorem counter_exact_witness:
  "sint (5 :: 32 word) + int 3 \<le> 2147483647 \<and>
   get (TestCounter_ctor 5) = 5 \<and>
   (\<exists>c. increments 3 (TestCounter_ctor 5) = Inr c \<and> sint (get c) = 8) \<and>
   sint (get (TestCounter_ctor 5)) < 2147483647 \<and>
   (\<exists>d'. increment (TestCounter_ctor 5) = Inr d' \<and> sint (get d') = 6)"
proof -
  have h1: "sint (5 :: 32 word) + int 3 \<le> 2147483647" by simp
  have h2: "sint (get (TestCounter_ctor 5)) < 2147483647"
    by (simp add: get_def TestCounter_ctor_def)
  note T = counter_exact [of 5 3 "TestCounter_ctor 5", rule_format, OF h1]
  have g1: "get (TestCounter_ctor 5) = 5" using T by blast
  have g2: "\<exists>c. increments 3 (TestCounter_ctor 5) = Inr c \<and> sint (get c) = 8"
    using T by simp
  have g3: "\<exists>d'. increment (TestCounter_ctor 5) = Inr d' \<and> sint (get d') = 6"
    using T h2 by (simp add: get_def TestCounter_ctor_def)
  show ?thesis by (intro conjI h1 h2 g1 g2 g3)
qed

text \<open>
  C10 as stated fails at the largest count: one \<open>increment\<close> of a counter constructed
  with \<open>INT32_MAX\<close> is a signed overflow, so \<open>get\<close> does not return \<open>init + 1\<close>.
\<close>

theorem counter_overflow_counterexample:
  "increments (Suc 0) (TestCounter_ctor 2147483647) = Inl SignedOverflow"
  by (simp add: increment_def TestCounter_ctor_def)

end
